theory Spec2Isabelle
  imports Main "HOL-Library.AList" "HOL-Library.Sublist"
begin

section \<open>Giza: a hierarchical store with bubbling events\<close>

text \<open>
  The development embeds three JavaScript files: the store (\<^verbatim>\<open>Store\<close> with
  \<^verbatim>\<open>parsePath\<close>), the bubbler (\<^verbatim>\<open>Bubbler\<close> with \<^verbatim>\<open>matchFilter\<close> and
  \<^verbatim>\<open>bubbleEvent\<close>) and the facade \<^verbatim>\<open>lib/main.js\<close> (\<^verbatim>\<open>Giza\<close>).

  Conventions of the embedding.
  \<^item> A JavaScript object used as a dictionary is an association list in insertion
    order; \<^verbatim>\<open>o[k] = v\<close> is \<open>AList.update k v o\<close> and \<^verbatim>\<open>delete o[k]\<close> is
    \<open>AList.delete k o\<close>.
  \<^item> The tree of the store is a value. What a key of a node holds is any JavaScript
    value: \<^verbatim>\<open>undefined\<close>, \<^verbatim>\<open>null\<close>, a primitive or an object; an object is the
    dictionary of its own properties, and is not shared between two places of the tree.
  \<^item> Every exception of the JavaScript is a value of type \<open>error\<close>.
  \<^item> A call of \<^verbatim>\<open>this.$bubbler.emit\<close> made by the store is an output event of the
    store operation, recorded in call order together with the tree as it is at that
    moment. Listeners are observers: they do not call back into the store.
\<close>

subsection \<open>Errors\<close>

datatype error =
    TypeError  \<comment> \<open>raised by the JavaScript engine or by underscore on a value that is no object\<close>
  | Error string  \<comment> \<open>\<^verbatim>\<open>throw new Error(msg)\<close>\<close>
  | Unhandled  \<comment> \<open>raised by an \<^verbatim>\<open>EventEmitter\<close> for the event \<^verbatim>\<open>error\<close> without a listener\<close>

subsection \<open>Strings and paths\<close>

definition slash :: char where
  "slash = CHR ''/''"

text \<open>\<^verbatim>\<open>path.replace(/\/+$/, '')\<close>: the run of slashes at the end is removed.\<close>

definition strip_trailing :: "string \<Rightarrow> string" where
  "strip_trailing path = rev (dropWhile (\<lambda>c. c = slash) (rev path))"

text \<open>\<^verbatim>\<open>path.split('/')\<close>: the result is never empty; \<^verbatim>\<open>''.split('/')\<close> is \<^verbatim>\<open>['']\<close>.\<close>

fun split_slash :: "string \<Rightarrow> string list" where
  "split_slash [] = [[]]"
| "split_slash (c # cs) =
     (if c = slash then [] # split_slash cs
      else (case split_slash cs of
              [] \<Rightarrow> [[c]]
            | s # ss \<Rightarrow> (c # s) # ss))"

text \<open>\<^verbatim>\<open>var layers = path.split('/'); layers.shift();\<close>\<close>

definition path_layers :: "string \<Rightarrow> string list" where
  "path_layers path = tl (split_slash path)"

text \<open>\<^verbatim>\<open>path.lastIndexOf('/')\<close>, with \<open>None\<close> for \<^verbatim>\<open>-1\<close>.\<close>

definition lastIndexOf :: "char \<Rightarrow> string \<Rightarrow> nat option" where
  "lastIndexOf c s =
     (if c \<in> set s then Some (length s - 1 - length (takeWhile (\<lambda>x. x \<noteq> c) (rev s)))
      else None)"

text \<open>The decimal numeral of a number, as JavaScript writes an array index.\<close>

function show_nat :: "nat \<Rightarrow> string" where
  "show_nat n =
     (if n < 10 then [''0123456789'' ! n]
      else show_nat (n div 10) @ [''0123456789'' ! (n mod 10)])"
  by pat_completeness auto
termination
  by (relation "measure (\<lambda>n. n)") auto

declare show_nat.simps [simp del]

subsection \<open>The values of the store\<close>

text \<open>
  A JavaScript value as the store meets it: \<^verbatim>\<open>undefined\<close>, \<^verbatim>\<open>null\<close>, a number (the
  model needs numbers only as the lengths of strings), a string, any other primitive
  (opaque: it has no property of its own), or an object, given by its own properties.
  A node of the tree is an object.

  Modelled from the spec: \<^verbatim>\<open>core/map.js\<close> is not part of the source. \<^verbatim>\<open>new Map()\<close>
  is taken to be an empty dictionary from string keys to values (the spec's Node).
\<close>

datatype 'v entry =
    Undefined
  | JNull
  | Num nat
  | Str string
  | Val 'v
  | Sub "(string \<times> 'v entry) list"

type_synonym 'v node = "(string \<times> 'v entry) list"

definition new_Map :: "'v node" where
  "new_Map = []"

definition nullish :: "'v entry \<Rightarrow> bool" where
  "nullish obj = (obj = Undefined \<or> obj = JNull)"

text \<open>
  The own properties of a value that is neither \<^verbatim>\<open>undefined\<close> nor \<^verbatim>\<open>null\<close>. A string
  has its \<^verbatim>\<open>length\<close> and one character at each index.
\<close>

definition str_own :: "string \<Rightarrow> string \<Rightarrow> 'v entry option" where
  "str_own s key =
     (if key = ''length'' then Some (Num (length s))
      else map_option (\<lambda>i. Str [s ! i]) (find (\<lambda>i. show_nat i = key) [0..<length s]))"

definition own :: "'v entry \<Rightarrow> string \<Rightarrow> 'v entry option" where
  "own obj key =
     (case obj of
        Sub props \<Rightarrow> map_of props key
      | Str s \<Rightarrow> str_own s key
      | _ \<Rightarrow> None)"

text \<open>
  Underscore's \<^verbatim>\<open>_.has(obj, key)\<close> is \<^verbatim>\<open>hasOwnProperty.call(obj, key)\<close>, which raises a
  TypeError when \<^verbatim>\<open>obj\<close> is \<^verbatim>\<open>undefined\<close> or \<^verbatim>\<open>null\<close>; later releases of underscore
  test \<^verbatim>\<open>obj != null\<close> first and answer \<^verbatim>\<open>false\<close>. The release the repository runs
  with is not part of the source, so it is a parameter \<open>nil_safe\<close> (true for the later
  behaviour) of every operation that can reach such a call.
\<close>

definition has :: "bool \<Rightarrow> 'v entry \<Rightarrow> string \<Rightarrow> error + bool" where
  "has nil_safe obj key =
     (if nullish obj then (if nil_safe then Inr False else Inl TypeError)
      else Inr (own obj key \<noteq> None))"

text \<open>
  The property read \<^verbatim>\<open>obj[key]\<close>. The code reads a property it has found with
  \<^verbatim>\<open>_.has\<close>, or one whose name starts with a slash; no inherited property has such a
  name, so a property that is not an own property reads as \<^verbatim>\<open>undefined\<close>.
\<close>

definition read_prop :: "'v entry \<Rightarrow> string \<Rightarrow> error + 'v entry" where
  "read_prop obj key =
     (if nullish obj then Inl TypeError
      else Inr (case own obj key of Some v \<Rightarrow> v | None \<Rightarrow> Undefined))"

text \<open>
  The assignment \<^verbatim>\<open>obj[key] = val\<close> and the statement \<^verbatim>\<open>delete obj[key]\<close>, with the
  value \<^verbatim>\<open>obj\<close> has afterwards. The files are not in strict mode: on a primitive both
  do nothing, on \<^verbatim>\<open>undefined\<close> and \<^verbatim>\<open>null\<close> both raise a TypeError.
\<close>

definition assign_prop :: "'v entry \<Rightarrow> string \<Rightarrow> 'v entry \<Rightarrow> error + 'v entry" where
  "assign_prop obj key val =
     (case obj of
        Sub props \<Rightarrow> Inr (Sub (AList.update key val props))
      | _ \<Rightarrow> (if nullish obj then Inl TypeError else Inr obj))"

definition delete_prop :: "'v entry \<Rightarrow> string \<Rightarrow> error + 'v entry" where
  "delete_prop obj key =
     (case obj of
        Sub props \<Rightarrow> Inr (Sub (AList.delete key props))
      | _ \<Rightarrow> (if nullish obj then Inl TypeError else Inr obj))"

subsection \<open>Path resolution\<close>

text \<open>
  The object \<^verbatim>\<open>parsePath\<close> returns. At the root, where the loop never runs, \<open>parent\<close>
  is \<^verbatim>\<open>null\<close> and \<open>dirName\<close> is \<^verbatim>\<open>undefined\<close> (\<open>None\<close>).
\<close>

record 'v nodes =
  parent :: "'v entry"
  current :: "'v entry"
  dirName :: "string option"
  created :: bool

text \<open>
  The loop of \<^verbatim>\<open>parsePath\<close>. The JavaScript mutates the tree in place while it walks
  down; the model returns the value of \<^verbatim>\<open>curNode\<close> rebuilt on the way back, next to the
  result: \<open>Some\<close> of the record, or \<open>None\<close> for \<^verbatim>\<open>return false\<close>. Nothing tests that
  \<^verbatim>\<open>curNode\<close> is a node: the loop goes on with whatever value the key holds.
\<close>

definition relink ::
  "'v entry \<Rightarrow> string \<Rightarrow> error + ('v entry \<times> 'v nodes option) \<Rightarrow> error + ('v entry \<times> 'v nodes option)"
where
  "relink curNode thisLayer r =
     (case r of
        Inl e \<Rightarrow> Inl e
      | Inr (child, res) \<Rightarrow>
          Inr ((case curNode of
                  Sub props \<Rightarrow> Sub (AList.update thisLayer child props)
                | _ \<Rightarrow> curNode),
               res))"

fun walk ::
  "bool \<Rightarrow> bool \<Rightarrow> string list \<Rightarrow> 'v entry \<Rightarrow> string option \<Rightarrow> bool \<Rightarrow> 'v entry
     \<Rightarrow> error + ('v entry \<times> 'v nodes option)"
where
  "walk nil_safe create [] parentNode thisLayer wasCreated curNode =
     Inr (curNode,
          Some \<lparr>parent = parentNode, current = curNode, dirName = thisLayer,
                created = wasCreated\<rparr>)"
| "walk nil_safe create (l # layers) parentNode lastLayer wasCreated curNode =
     (let thisLayer = slash # l in
      case has nil_safe curNode thisLayer of
        Inl e \<Rightarrow> Inl e
      | Inr True \<Rightarrow>
          (case read_prop curNode thisLayer of
             Inl e \<Rightarrow> Inl e
           | Inr child \<Rightarrow>
               relink curNode thisLayer
                 (walk nil_safe create layers curNode (Some thisLayer) wasCreated child))
      | Inr False \<Rightarrow>
          (if create
           then (case assign_prop curNode thisLayer (Sub new_Map) of
                   Inl e \<Rightarrow> Inl e
                 | Inr curNode1 \<Rightarrow>
                     (case read_prop curNode1 thisLayer of
                        Inl e \<Rightarrow> Inl e
                      | Inr child \<Rightarrow>
                          relink curNode1 thisLayer
                            (walk nil_safe create layers curNode1 (Some thisLayer) True child)))
           else Inr (curNode, None)))"

text \<open>The tree of the store is the object \<^verbatim>\<open>this.$data\<close>, a node.\<close>

definition as_node :: "'v entry \<Rightarrow> 'v node \<Rightarrow> 'v node" where
  "as_node obj data = (case obj of Sub props \<Rightarrow> props | _ \<Rightarrow> data)"

definition parsePath ::
  "bool \<Rightarrow> string \<Rightarrow> 'v node \<Rightarrow> bool \<Rightarrow> error + ('v node \<times> 'v nodes option)"
where
  "parsePath nil_safe path data create =
     (case walk nil_safe create (path_layers path) JNull None False (Sub data) of
        Inl e \<Rightarrow> Inl e
      | Inr (root, res) \<Rightarrow> Inr (as_node root data, res))"

text \<open>
  A write through \<^verbatim>\<open>nodes.current\<close> or \<^verbatim>\<open>nodes.parent\<close> changes the object of the tree
  that the reference points to: the one reached from the root by the layers walked.
  \<open>write_back layers obj data\<close> is the tree with \<open>obj\<close> in that place.
\<close>

fun modify_at :: "string list \<Rightarrow> ('v entry \<Rightarrow> 'v entry) \<Rightarrow> 'v entry \<Rightarrow> 'v entry" where
  "modify_at [] f obj = f obj"
| "modify_at (l # layers) f (Sub props) =
     (case map_of props (slash # l) of
        Some child \<Rightarrow> Sub (AList.update (slash # l) (modify_at layers f child) props)
      | None \<Rightarrow> Sub props)"
| "modify_at (l # layers) f obj = obj"

definition write_back :: "string list \<Rightarrow> 'v entry \<Rightarrow> 'v node \<Rightarrow> 'v node" where
  "write_back layers obj data = as_node (modify_at layers (\<lambda>old. obj) (Sub data)) data"

subsection \<open>The store\<close>

text \<open>
  An output event of a store operation: the path and the event name handed to
  \<^verbatim>\<open>this.$bubbler.emit\<close>, and the tree at the moment of the call.
\<close>

type_synonym 'v emission = "string \<times> string \<times> 'v node"

text \<open>
  \<open>createMode\<close> is the value of the variable of that name after the \<^verbatim>\<open>if\<close> that may
  set it; \<^verbatim>\<open>_.has\<close> is called only when \<^verbatim>\<open>nodes.created\<close> is true.
\<close>

definition createMode :: "bool \<Rightarrow> 'v nodes \<Rightarrow> string \<Rightarrow> error + bool" where
  "createMode nil_safe nodes key =
     (let createMode0 = created nodes
      in if createMode0
         then (case has nil_safe (current nodes) key of
                 Inl e \<Rightarrow> Inl e
               | Inr found \<Rightarrow> Inr (if \<not> found then True else createMode0))
         else Inr createMode0)"

text \<open>
  \<^verbatim>\<open>Store.save(path, key, val)\<close>. With \<open>create\<close> set, \<^verbatim>\<open>parsePath\<close> never returns
  \<^verbatim>\<open>false\<close>; were it to, \<^verbatim>\<open>nodes.created\<close> would be \<^verbatim>\<open>undefined\<close> and the assignment
  through \<^verbatim>\<open>nodes.current\<close> a TypeError. The result is what was emitted and the tree, or
  the exception that ended the call; an exception leaves the tree as it was.
\<close>

definition Store_save ::
  "bool \<Rightarrow> 'v node \<Rightarrow> string \<Rightarrow> string \<Rightarrow> 'v entry \<Rightarrow> 'v emission list \<times> (error + 'v node)"
where
  "Store_save nil_safe data path0 key val =
     (let path = strip_trailing path0 in
      case parsePath nil_safe path data True of
        Inl e \<Rightarrow> ([], Inl e)
      | Inr (data1, None) \<Rightarrow> ([(path, ''pre-update'', data1)], Inl TypeError)
      | Inr (data1, Some nodes) \<Rightarrow>
          (case createMode nil_safe nodes key of
             Inl e \<Rightarrow> ([], Inl e)
           | Inr cm \<Rightarrow>
               (let pre = (if cm then [(path, ''pre-create'', data1)] else [])
                            @ [(path, ''pre-update'', data1)]
                in case assign_prop (current nodes) key val of
                     Inl e \<Rightarrow> (pre, Inl e)
                   | Inr cur \<Rightarrow>
                       (let data2 = write_back (path_layers path) cur data1
                        in (pre @ (if cm then [(path, ''post-create'', data2)] else [])
                                @ [(path, ''post-update'', data2)],
                            Inr data2)))))"

text \<open>
  \<^verbatim>\<open>Store.delete(path, key)\<close>; \<open>key = None\<close> when the key is omitted or \<^verbatim>\<open>undefined\<close>.
  When \<^verbatim>\<open>parsePath\<close> returned \<^verbatim>\<open>false\<close>, \<^verbatim>\<open>nodes.parent\<close>, \<^verbatim>\<open>nodes.current\<close> and
  \<^verbatim>\<open>nodes.dirName\<close> are \<^verbatim>\<open>undefined\<close>. The result holds the tree and the value returned.
\<close>

definition Store_delete ::
  "bool \<Rightarrow> 'v node \<Rightarrow> string \<Rightarrow> string option
     \<Rightarrow> 'v emission list \<times> (error + 'v node \<times> bool)"
where
  "Store_delete nil_safe data path0 key =
     (let path = strip_trailing path0 in
      case parsePath nil_safe path data False of
        Inl e \<Rightarrow> ([], Inl e)
      | Inr (data1, nodes) \<Rightarrow>
          (case key of
             None \<Rightarrow>
               (let par = (case nodes of None \<Rightarrow> Undefined | Some ns \<Rightarrow> parent ns);
                    name = (case nodes of
                              None \<Rightarrow> ''undefined''
                            | Some ns \<Rightarrow> (case dirName ns of None \<Rightarrow> ''undefined'' | Some d \<Rightarrow> d))
                in case delete_prop par name of
                     Inl e \<Rightarrow> ([(path, ''pre-delete'', data1)], Inl e)
                   | Inr par1 \<Rightarrow>
                       (let data2 = write_back (butlast (path_layers path)) par1 data1
                        in ([(path, ''pre-delete'', data1), (path, ''post-delete'', data2)],
                            Inr (data2, True))))
           | Some k \<Rightarrow>
               (let cur = (case nodes of None \<Rightarrow> Undefined | Some ns \<Rightarrow> current ns)
                in case has nil_safe cur k of
                     Inl e \<Rightarrow> ([], Inl e)
                   | Inr False \<Rightarrow> ([], Inr (data1, False))
                   | Inr True \<Rightarrow>
                       (case delete_prop cur k of
                          Inl e \<Rightarrow> ([(path, ''pre-delete'', data1)], Inl e)
                        | Inr cur1 \<Rightarrow>
                            (let data2 = write_back (path_layers path) cur1 data1
                             in ([(path, ''pre-delete'', data1), (path, ''post-delete'', data2)],
                                 Inr (data2, True)))))))"

text \<open>
  The second argument of \<^verbatim>\<open>Store.get(path, key, recursive)\<close>: omitted (or
  \<^verbatim>\<open>undefined\<close>), a boolean (then it is read as the recursive flag), or a key. The third
  argument is \<open>None\<close> when omitted.

  \<^verbatim>\<open>_.keys\<close> of a value that is not an object is \<^verbatim>\<open>[]\<close> in the later releases of
  underscore; in the earlier ones it is the engine's \<^verbatim>\<open>Object.keys\<close>, which raised a
  TypeError for such a value. This is the parameter \<open>nil_keys\<close> (true for the later
  behaviour). \<^verbatim>\<open>_.pick(x, [])\<close> is \<^verbatim>\<open>{}\<close> in all.
\<close>

datatype key_arg = Omitted | Flag bool | Key string

definition Store_get ::
  "bool \<Rightarrow> bool \<Rightarrow> 'v node \<Rightarrow> string \<Rightarrow> key_arg \<Rightarrow> bool option \<Rightarrow> error + 'v entry"
where
  "Store_get nil_safe nil_keys data path0 key recursive0 =
     (let path = strip_trailing path0 in
      case parsePath nil_safe path data False of
        Inl e \<Rightarrow> Inl e
      | Inr (data1, nodes) \<Rightarrow>
          (let cur = (case nodes of None \<Rightarrow> Undefined | Some ns \<Rightarrow> current ns)
           in case key of
                Key k \<Rightarrow>
                  (case has nil_safe cur k of
                     Inl e \<Rightarrow> Inl e
                   | Inr False \<Rightarrow> Inr Undefined
                   | Inr True \<Rightarrow> read_prop cur k)
              | _ \<Rightarrow>
                  (let recursive =
                         (case recursive0 of
                            Some r \<Rightarrow> r
                          | None \<Rightarrow> (case key of Flag b \<Rightarrow> b | _ \<Rightarrow> False))
                   in if recursive then Inr cur
                      else (case cur of
                              Sub props \<Rightarrow>
                                Inr (Sub (filter (\<lambda>(k, v). \<not> (k \<noteq> [] \<and> hd k = slash)) props))
                            | _ \<Rightarrow> (if nil_keys then Inr (Sub []) else Inl TypeError)))))"

text \<open>\<^verbatim>\<open>Store.exists(path, key)\<close> guards the failed resolution: \<^verbatim>\<open>if (!nodes) return false\<close>.\<close>

definition Store_exists :: "bool \<Rightarrow> 'v node \<Rightarrow> string \<Rightarrow> string option \<Rightarrow> error + bool" where
  "Store_exists nil_safe data path0 key =
     (let path = strip_trailing path0 in
      case parsePath nil_safe path data False of
        Inl e \<Rightarrow> Inl e
      | Inr (data1, None) \<Rightarrow> Inr False
      | Inr (data1, Some ns) \<Rightarrow>
          (case key of None \<Rightarrow> Inr True | Some k \<Rightarrow> has nil_safe (current ns) k))"

subsection \<open>Filters\<close>

text \<open>
  A value passed along with an event, the type of an event's object, or an element of
  an array in a filter: a string or any other value, opaque; \<^verbatim>\<open>undefined\<close> and \<^verbatim>\<open>null\<close>
  are set apart by \<open>field\<close> below.
\<close>

datatype 'o extra = EStr string | EObj 'o

text \<open>A property of an object: not set (it reads as \<^verbatim>\<open>undefined\<close>), \<^verbatim>\<open>null\<close>, or a value.\<close>

datatype 'a field = Absent | Null | Present 'a

text \<open>
  The value of \<^verbatim>\<open>thisFilter.types\<close> or \<^verbatim>\<open>thisFilter.names\<close>: \<^verbatim>\<open>undefined\<close>, a string,
  an array, or anything else. The elements of an array are strings or other values;
  \<^verbatim>\<open>undefined\<close> and \<^verbatim>\<open>null\<close> are not among them.
\<close>

datatype 'o constraint = Unset | Single string | Many "'o extra list" | Invalid

record 'o filter =
  types :: "'o constraint"
  names :: "'o constraint"

text \<open>
  The two equalities of JavaScript on the values the model leaves opaque: \<open>loose_eq s v\<close>
  is \<^verbatim>\<open>s == v\<close> for a string \<open>s\<close> and a value \<open>v\<close> that is not a string (the language
  converts before it compares), and \<open>strict_eq v w\<close> is the test \<^verbatim>\<open>_.contains\<close> makes
  between two such values. They are parameters of \<^verbatim>\<open>matchFilter\<close>.
\<close>

record 'o equality =
  loose_eq :: "string \<Rightarrow> 'o \<Rightarrow> bool"
  strict_eq :: "'o \<Rightarrow> 'o \<Rightarrow> bool"

text \<open>\<^verbatim>\<open>s != v\<close> for a string \<open>s\<close>: no string equals \<^verbatim>\<open>undefined\<close> or \<^verbatim>\<open>null\<close>.\<close>

definition differs :: "'o equality \<Rightarrow> string \<Rightarrow> 'o extra field \<Rightarrow> bool" where
  "differs js s v =
     (case v of
        Present (EStr t) \<Rightarrow> s \<noteq> t
      | Present (EObj x) \<Rightarrow> \<not> loose_eq js s x
      | _ \<Rightarrow> True)"

text \<open>\<^verbatim>\<open>_.contains(list, v)\<close>: some element is identical to \<open>v\<close>.\<close>

definition same :: "'o equality \<Rightarrow> 'o extra \<Rightarrow> 'o extra \<Rightarrow> bool" where
  "same js x y =
     (case x of
        EStr s \<Rightarrow> (case y of EStr t \<Rightarrow> s = t | EObj b \<Rightarrow> False)
      | EObj a \<Rightarrow> (case y of EStr t \<Rightarrow> False | EObj b \<Rightarrow> strict_eq js a b))"

definition contains :: "'o equality \<Rightarrow> 'o extra list \<Rightarrow> 'o extra field \<Rightarrow> bool" where
  "contains js list v = (case v of Present y \<Rightarrow> list_ex (\<lambda>x. same js x y) list | _ \<Rightarrow> False)"

text \<open>
  One branch chain of the loop body of \<^verbatim>\<open>matchFilter\<close>: \<open>Inr True\<close> when control falls
  through to what follows, \<open>Inr False\<close> for \<^verbatim>\<open>return false\<close>, \<open>Inl\<close> for the \<^verbatim>\<open>throw\<close>
  (the message is cut after its first words). The event name is a string.
\<close>

definition check_types :: "'o equality \<Rightarrow> 'o extra field \<Rightarrow> 'o constraint \<Rightarrow> error + bool" where
  "check_types js type c =
     (case c of
        Unset \<Rightarrow> Inr True
      | Many ts \<Rightarrow> (if length ts > 0 \<and> \<not> contains js ts type then Inr False else Inr True)
      | Single t \<Rightarrow> (if differs js t type then Inr False else Inr True)
      | Invalid \<Rightarrow> Inl (Error ''Invalid types provided''))"

definition check_names :: "'o equality \<Rightarrow> string \<Rightarrow> 'o constraint \<Rightarrow> error + bool" where
  "check_names js eventName c =
     (if c = Unset \<or> c = Single [] then Inr True
      else (case c of
              Many ns \<Rightarrow>
                (if length ns > 0 \<and> \<not> contains js ns (Present (EStr eventName)) then Inr False
                 else Inr True)
            | Single n \<Rightarrow> (if differs js n (Present (EStr eventName)) then Inr False else Inr True)
            | _ \<Rightarrow> Inl (Error ''Invalid name provided'')))"

fun matchFilter ::
  "'o equality \<Rightarrow> string \<Rightarrow> 'o extra field \<Rightarrow> 'o filter list \<Rightarrow> error + bool"
where
  "matchFilter js eventName type [] = Inr True"
| "matchFilter js eventName type (thisFilter # filters) =
     (case check_types js type (types thisFilter) of
        Inl e \<Rightarrow> Inl e
      | Inr False \<Rightarrow> Inr False
      | Inr True \<Rightarrow>
          (case check_names js eventName (names thisFilter) of
             Inl e \<Rightarrow> Inl e
           | Inr False \<Rightarrow> Inr False
           | Inr True \<Rightarrow> matchFilter js eventName type filters))"

subsection \<open>Events, sources and listeners\<close>

text \<open>The event source descriptor built by \<^verbatim>\<open>emit\<close>.\<close>

record 'o source =
  s_path :: string
  s_triggered :: bool
  s_obj :: "'o extra field"
  s_type :: "'o extra field"

text \<open>The event given to \<^verbatim>\<open>emit\<close>: a string, or an object with a name and a triggered flag.\<close>

datatype event = EvName string | EvObj string bool

text \<open>The array \<^verbatim>\<open>args = [path, event, source, ...]\<close> handed to \<^verbatim>\<open>bus.emit.apply\<close>.\<close>

record 'o args =
  a_path :: string
  a_event :: string
  a_source :: "'o source"
  a_extra :: "'o extra list"

text \<open>
  The closure \<^verbatim>\<open>filteredCallback\<close> that \<^verbatim>\<open>subscribe\<close> creates: what it captures, and a
  number standing for its identity as an object.
\<close>

record ('c, 'o) wrapper =
  w_id :: nat
  w_callback :: 'c
  w_filters :: "'o filter list"
  w_triggered :: bool

text \<open>
  What an emission does, in order: a call of \<^verbatim>\<open>bus.emit.apply(bus, args)\<close> on one of the
  two buses, and a call \<^verbatim>\<open>callback.apply(null, arguments)\<close> of a subscriber's callback
  with the arguments \<^verbatim>\<open>(event, source, ...)\<close> the bus handed to the closure. A run is the
  list of what was done and the exception that ended it, if any.
\<close>

datatype bus_id = Direct | Bubble

datatype ('c, 'o) action =
    Dispatch bus_id "'o args"
  | Invoke 'c string "'o source" "'o extra list"

type_synonym ('c, 'o) run = "('c, 'o) action list \<times> error option"

definition and_then :: "('c, 'o) run \<Rightarrow> ('c, 'o) run \<Rightarrow> ('c, 'o) run" where
  "and_then r1 r2 = (case snd r1 of Some e \<Rightarrow> r1 | None \<Rightarrow> (fst r1 @ fst r2, snd r2))"

text \<open>
  The body of the closure. Its \<^verbatim>\<open>filters\<close> is always an array, so \<^verbatim>\<open>!filters\<close> is false
  and \<^verbatim>\<open>matchFilter\<close> is always called; \<^verbatim>\<open>source\<close> is always the descriptor, an object.
\<close>

definition filteredCallback ::
  "'o equality \<Rightarrow> ('c, 'o) wrapper \<Rightarrow> string \<Rightarrow> 'o source \<Rightarrow> 'o extra list \<Rightarrow> ('c, 'o) run"
where
  "filteredCallback js w event source extra =
     (let type = s_type source in
      case matchFilter js event type (w_filters w) of
        Inl e \<Rightarrow> ([], Some e)
      | Inr matched \<Rightarrow>
          (if matched \<and> (w_triggered w \<or> s_triggered source = False)
           then ([Invoke (w_callback w) event source extra], None)
           else ([], None)))"

text \<open>
  Node's \<^verbatim>\<open>EventEmitter\<close>: a registry from channel names to listeners in registration
  order. \<^verbatim>\<open>emit(name, ...)\<close> calls the listeners of the channel \<^verbatim>\<open>name\<close>, in order, with
  the remaining arguments; an exception of a listener ends the emission. The name
  \<^verbatim>\<open>error\<close> is special: emitting it while it has no listener raises. (The emitter also
  announces registrations and removals on the channels \<^verbatim>\<open>newListener\<close> and
  \<^verbatim>\<open>removeListener\<close>; a subscription at such a name is outside the model.)
\<close>

type_synonym ('c, 'o) bus = "string \<Rightarrow> ('c, 'o) wrapper list"

definition bus_on :: "('c, 'o) bus \<Rightarrow> string \<Rightarrow> ('c, 'o) wrapper \<Rightarrow> ('c, 'o) bus" where
  "bus_on bus name w = bus(name := bus name @ [w])"

definition removeAllListeners :: "('c, 'o) bus \<Rightarrow> string \<Rightarrow> ('c, 'o) bus" where
  "removeAllListeners bus name = bus(name := [])"

fun call_listeners ::
  "'o equality \<Rightarrow> ('c, 'o) wrapper list \<Rightarrow> 'o args \<Rightarrow> ('c, 'o) run"
where
  "call_listeners js [] args = ([], None)"
| "call_listeners js (w # ws) args =
     and_then (filteredCallback js w (a_event args) (a_source args) (a_extra args))
       (call_listeners js ws args)"

definition bus_emit :: "'o equality \<Rightarrow> bus_id \<Rightarrow> ('c, 'o) bus \<Rightarrow> 'o args \<Rightarrow> ('c, 'o) run" where
  "bus_emit js b bus args =
     (if a_path args = ''error'' \<and> bus (a_path args) = []
      then ([Dispatch b args], Some Unhandled)
      else and_then ([Dispatch b args], None) (call_listeners js (bus (a_path args)) args))"

text \<open>
  \<^verbatim>\<open>bubbleEvent(path, event, bus, args, type, source)\<close>. The parameters \<^verbatim>\<open>event\<close>,
  \<^verbatim>\<open>type\<close> and \<^verbatim>\<open>source\<close> only reach the log and are left out. \<^verbatim>\<open>args[0] = ...\<close>
  overwrites the first element of the shared array.
\<close>

function bubbleEvent ::
  "'o equality \<Rightarrow> string \<Rightarrow> ('c, 'o) bus \<Rightarrow> 'o args \<Rightarrow> ('c, 'o) run"
where
  "bubbleEvent js path bus args =
     (case lastIndexOf slash path of
        None \<Rightarrow> ([], None)
      | Some lastSlash \<Rightarrow>
          (let path' = take lastSlash path in
           if path' = []
           then bus_emit js Bubble bus (args\<lparr>a_path := [slash]\<rparr>)
           else and_then (bus_emit js Bubble bus (args\<lparr>a_path := path'\<rparr>))
                  (bubbleEvent js path' bus (args\<lparr>a_path := path'\<rparr>))))"
  by pat_completeness auto
termination
  by (relation "measure (\<lambda>(js, path, bus, args). length path)")
     (auto simp: lastIndexOf_def split: if_splits)

declare bubbleEvent.simps [simp del]

subsection \<open>The bubbler\<close>

text \<open>
  The store a bubbler may hold a reference to, as \<^verbatim>\<open>emit\<close> uses it: \<^verbatim>\<open>get(path)\<close> and
  \<^verbatim>\<open>getType(path)\<close>, each returning a value or raising.
\<close>

record 'o store_ref =
  st_get :: "string \<Rightarrow> error + 'o extra"
  st_getType :: "string \<Rightarrow> error + 'o extra"

text \<open>
  \<^verbatim>\<open>$callbacks\<close> is a dictionary whose keys are the callbacks. \<open>next_id\<close> is the identity
  the next closure gets.
\<close>

record ('c, 'o) bubbler =
  eventBus :: "('c, 'o) bus"
  bubbleBus :: "('c, 'o) bus"
  callbacks :: "('c \<times> ('c, 'o) wrapper) list"
  bstore :: "'o store_ref option"
  next_id :: nat

definition Bubbler :: "'o store_ref option \<Rightarrow> ('c, 'o) bubbler" where
  "Bubbler store =
     \<lparr>eventBus = (\<lambda>name. []), bubbleBus = (\<lambda>name. []), callbacks = [],
      bstore = store, next_id = 0\<rparr>"

definition setStore :: "('c, 'o) bubbler \<Rightarrow> 'o store_ref \<Rightarrow> ('c, 'o) bubbler" where
  "setStore b store = b\<lparr>bstore := Some store\<rparr>"

text \<open>
  The options of \<^verbatim>\<open>subscribe\<close>. A field is \<open>None\<close> when the option is missing (or
  \<^verbatim>\<open>undefined\<close>); \<^verbatim>\<open>filters\<close> is missing, one filter object, or an array of them.
\<close>

datatype 'o filters_arg = NoFilters | OneFilter "'o filter" | FilterList "'o filter list"

record 'o options =
  opt_bubble :: "bool option"
  opt_filters :: "'o filters_arg"
  opt_triggered :: "bool option"

definition no_options :: "'o options" where
  "no_options = \<lparr>opt_bubble = None, opt_filters = NoFilters, opt_triggered = None\<rparr>"

text \<open>
  \<^verbatim>\<open>PathUtil.cleanPath\<close> (\<^verbatim>\<open>core/path-util.js\<close>) is not part of the source. It is the
  parameter \<open>cleanPath\<close> of \<^verbatim>\<open>subscribe\<close> and \<^verbatim>\<open>emit\<close>, and nothing is assumed of it
  but what a statement says.

  \<^verbatim>\<open>subscribe(path, callback, options)\<close>. Without \<^verbatim>\<open>options.filters\<close> the array is
  \<^verbatim>\<open>[false]\<close>, and \<^verbatim>\<open>false.types\<close> and \<^verbatim>\<open>false.names\<close> are \<^verbatim>\<open>undefined\<close>.
\<close>

definition Bubbler_subscribe ::
  "(string \<Rightarrow> string) \<Rightarrow> ('c, 'o) bubbler \<Rightarrow> string \<Rightarrow> 'c \<Rightarrow> 'o options option
     \<Rightarrow> ('c, 'o) bubbler"
where
  "Bubbler_subscribe cleanPath b path0 callback options0 =
     (let options = (case options0 of None \<Rightarrow> no_options | Some opts \<Rightarrow> opts);
          bubble = (case opt_bubble options of None \<Rightarrow> True | Some v \<Rightarrow> v);
          filters =
            (case opt_filters options of
               NoFilters \<Rightarrow> [\<lparr>types = Unset, names = Unset\<rparr>]
             | OneFilter f \<Rightarrow> [f]
             | FilterList fs \<Rightarrow> fs);
          triggered = (case opt_triggered options of None \<Rightarrow> True | Some v \<Rightarrow> v);
          path = cleanPath path0;
          w = \<lparr>w_id = next_id b, w_callback = callback, w_filters = filters,
               w_triggered = triggered\<rparr>;
          b1 = b\<lparr>callbacks := AList.update callback w (callbacks b), next_id := Suc (next_id b)\<rparr>;
          b2 = b1\<lparr>eventBus := bus_on (eventBus b1) path w\<rparr>
      in if bubble then b2\<lparr>bubbleBus := bus_on (bubbleBus b2) path w\<rparr> else b2)"

text \<open>
  \<^verbatim>\<open>emit(path, event, ...)\<close>; \<open>extra\<close> are the arguments after \<^verbatim>\<open>event\<close>, so
  \<^verbatim>\<open>arguments.length === 4\<close> is \<open>length extra = 2\<close>, \<^verbatim>\<open>arguments[2]\<close> is \<open>extra ! 0\<close> and
  \<^verbatim>\<open>arguments[3]\<close> is \<open>extra ! 1\<close>. An exception in the \<^verbatim>\<open>try\<close> block sets both fields
  to \<^verbatim>\<open>null\<close>.
\<close>

definition emit_source :: "('c, 'o) bubbler \<Rightarrow> string \<Rightarrow> event \<Rightarrow> 'o extra list \<Rightarrow> 'o source" where
  "emit_source b path event extra =
     (let source = \<lparr>s_path = path, s_triggered = False, s_obj = Absent, s_type = Absent\<rparr>;
          source1 =
            (case bstore b of
               None \<Rightarrow> source
             | Some store \<Rightarrow>
                 (if event = EvName ''delete'' \<and> length extra = 2
                  then source\<lparr>s_obj := Present (extra ! 1), s_type := Present (extra ! 0)\<rparr>
                  else (case st_get store path of
                          Inl err \<Rightarrow> source\<lparr>s_obj := Null, s_type := Null\<rparr>
                        | Inr obj \<Rightarrow>
                            (case st_getType store path of
                               Inl err \<Rightarrow> source\<lparr>s_obj := Null, s_type := Null\<rparr>
                             | Inr ty \<Rightarrow> source\<lparr>s_obj := Present obj, s_type := Present ty\<rparr>))))
      in case event of
           EvName n \<Rightarrow> source1
         | EvObj n t \<Rightarrow> source1\<lparr>s_triggered := t\<rparr>)"

definition event_name :: "event \<Rightarrow> string" where
  "event_name event = (case event of EvName n \<Rightarrow> n | EvObj n t \<Rightarrow> n)"

definition Bubbler_emit ::
  "'o equality \<Rightarrow> (string \<Rightarrow> string) \<Rightarrow> ('c, 'o) bubbler \<Rightarrow> string \<Rightarrow> event \<Rightarrow> 'o extra list
     \<Rightarrow> ('c, 'o) run"
where
  "Bubbler_emit js cleanPath b path0 event extra =
     (let path = cleanPath path0;
          source = emit_source b path event extra;
          args = \<lparr>a_path = path, a_event = event_name event, a_source = source, a_extra = extra\<rparr>
      in and_then (bus_emit js Direct (eventBus b) args) (bubbleEvent js path (bubbleBus b) args))"

text \<open>
  \<^verbatim>\<open>clearSubscriptions(path)\<close>. The loop runs over the keys of \<^verbatim>\<open>$callbacks\<close> as they
  are before it starts.
\<close>

fun drop_callbacks ::
  "'c list \<Rightarrow> ('c, 'o) wrapper list \<Rightarrow> ('c \<times> ('c, 'o) wrapper) list
     \<Rightarrow> ('c \<times> ('c, 'o) wrapper) list"
where
  "drop_callbacks [] listeners cbs = cbs"
| "drop_callbacks (k # keys) listeners cbs =
     drop_callbacks keys listeners
       (case map_of cbs k of
          None \<Rightarrow> cbs
        | Some w \<Rightarrow> (if w \<in> set listeners then AList.delete k cbs else cbs))"

definition Bubbler_clearSubscriptions :: "('c, 'o) bubbler \<Rightarrow> string \<Rightarrow> ('c, 'o) bubbler" where
  "Bubbler_clearSubscriptions b path =
     (let ebListeners = eventBus b path;
          bubListeners = bubbleBus b path;
          listeners = List.union ebListeners bubListeners;
          keys = map fst (callbacks b)
      in b\<lparr>callbacks := drop_callbacks keys listeners (callbacks b),
            eventBus := removeAllListeners (eventBus b) path,
            bubbleBus := removeAllListeners (bubbleBus b) path\<rparr>)"

subsection \<open>The facade\<close>

text \<open>
  \<^verbatim>\<open>lib/main.js\<close>. The constructor creates the bubbler with \<^verbatim>\<open>new Bubbler()\<close>, so its
  \<^verbatim>\<open>$store\<close> is \<^verbatim>\<open>undefined\<close>, and the store with that bubbler. The assemblers reach
  neither the store nor the bubbler and are left out. The state of the facade is the
  bubbler and the tree of the store.
\<close>

record ('c, 'o, 'v) giza =
  g_bubbler :: "('c, 'o) bubbler"
  g_data :: "'v node"

definition Giza :: "('c, 'o, 'v) giza" where
  "Giza = \<lparr>g_bubbler = Bubbler None, g_data = new_Map\<rparr>"

text \<open>
  The store calls \<^verbatim>\<open>this.$bubbler.emit(path, name)\<close> for each of its output events. An
  exception of a listener ends the store operation at that call, with the tree as it is
  then: the second component is that tree, or \<open>None\<close> when every call returned.
\<close>

fun deliver ::
  "'o equality \<Rightarrow> (string \<Rightarrow> string) \<Rightarrow> ('c, 'o) bubbler \<Rightarrow> 'v emission list
     \<Rightarrow> ('c, 'o) run \<times> 'v node option"
where
  "deliver js cleanPath b [] = (([], None), None)"
| "deliver js cleanPath b ((p, e, d) # rest) =
     (let r = Bubbler_emit js cleanPath b p (EvName e) [] in
      case snd r of
        Some err \<Rightarrow> (r, Some d)
      | None \<Rightarrow> (let (r', stopped) = deliver js cleanPath b rest in (and_then r r', stopped)))"

text \<open>\<^verbatim>\<open>Giza.save\<close> forwards its arguments to \<^verbatim>\<open>Store.save\<close>.\<close>

definition Giza_save ::
  "bool \<Rightarrow> 'o equality \<Rightarrow> (string \<Rightarrow> string) \<Rightarrow> ('c, 'o, 'v) giza \<Rightarrow> string \<Rightarrow> string
     \<Rightarrow> 'v entry \<Rightarrow> ('c, 'o) run \<times> ('c, 'o, 'v) giza"
where
  "Giza_save nil_safe js cleanPath g path key val =
     (let (ems, res) = Store_save nil_safe (g_data g) path key val;
          (r, stopped) = deliver js cleanPath (g_bubbler g) ems
      in case stopped of
           Some d \<Rightarrow> (r, g\<lparr>g_data := d\<rparr>)
         | None \<Rightarrow>
             (case res of
                Inl e \<Rightarrow> ((fst r, Some e), g)
              | Inr d \<Rightarrow> (r, g\<lparr>g_data := d\<rparr>)))"

text \<open>
  \<^verbatim>\<open>Giza.subscribe(path, callback, bubble)\<close> forwards its arguments to
  \<^verbatim>\<open>Bubbler.subscribe(path, callback, options)\<close>: the third argument arrives as
  \<^verbatim>\<open>options\<close>. A boolean there has none of the option properties (\<^verbatim>\<open>false\<close> is replaced
  by \<^verbatim>\<open>{}\<close>), so it leaves every option at its default.
\<close>

datatype 'o third_arg = ThirdOmitted | ThirdBool bool | ThirdOptions "'o options"

definition Giza_subscribe ::
  "(string \<Rightarrow> string) \<Rightarrow> ('c, 'o, 'v) giza \<Rightarrow> string \<Rightarrow> 'c \<Rightarrow> 'o third_arg
     \<Rightarrow> ('c, 'o, 'v) giza"
where
  "Giza_subscribe cleanPath g path callback third =
     g\<lparr>g_bubbler :=
         Bubbler_subscribe cleanPath (g_bubbler g) path callback
           (case third of ThirdOptions opts \<Rightarrow> Some opts | _ \<Rightarrow> None)\<rparr>"

text \<open>
  \<^verbatim>\<open>Giza.get(path, options)\<close> forwards its arguments to \<^verbatim>\<open>Store.get\<close>, where the options
  object arrives as the key and is read as the property name \<^verbatim>\<open>[object Object]\<close>. Without
  options, \<^verbatim>\<open>options.recursive\<close> raises a TypeError after the store has answered. The
  callback is subscribed with the boolean \<^verbatim>\<open>recursive\<close> in the place of the options.
\<close>

record 'c get_options =
  go_recursive :: "bool option"
  go_callback :: "'c option"

definition Giza_get ::
  "bool \<Rightarrow> bool \<Rightarrow> (string \<Rightarrow> string) \<Rightarrow> ('c, 'o, 'v) giza \<Rightarrow> string \<Rightarrow> 'c get_options option
     \<Rightarrow> (error + 'v entry) \<times> ('c, 'o, 'v) giza"
where
  "Giza_get nil_safe nil_keys cleanPath g path options0 =
     (case options0 of
        None \<Rightarrow>
          (case Store_get nil_safe nil_keys (g_data g) path Omitted None of
             Inl e \<Rightarrow> (Inl e, g)
           | Inr obj \<Rightarrow> (Inl TypeError, g))
      | Some opts \<Rightarrow>
          (case Store_get nil_safe nil_keys (g_data g) path (Key ''[object Object]'') None of
             Inl e \<Rightarrow> (Inl e, g)
           | Inr obj \<Rightarrow>
               (case go_callback opts of
                  None \<Rightarrow> (Inr obj, g)
                | Some callback \<Rightarrow>
                    (Inr obj,
                     g\<lparr>g_bubbler :=
                         Bubbler_subscribe cleanPath (g_bubbler g) path callback None\<rparr>))))"


text \<open>The states of the facade: what the constructor and the methods can produce.\<close>

inductive reachable ::
  "bool \<Rightarrow> bool \<Rightarrow> 'o equality \<Rightarrow> (string \<Rightarrow> string) \<Rightarrow> ('c, 'o, 'v) giza \<Rightarrow> bool"
  for nil_safe :: bool and nil_keys :: bool and js :: "'o equality"
    and cleanPath :: "string \<Rightarrow> string"
where
  init: "reachable nil_safe nil_keys js cleanPath Giza"
| save: "reachable nil_safe nil_keys js cleanPath g
          \<Longrightarrow> reachable nil_safe nil_keys js cleanPath
                (snd (Giza_save nil_safe js cleanPath g path key val))"
| subscribe: "reachable nil_safe nil_keys js cleanPath g
          \<Longrightarrow> reachable nil_safe nil_keys js cleanPath
                (Giza_subscribe cleanPath g path callback third)"
| get: "reachable nil_safe nil_keys js cleanPath g
          \<Longrightarrow> reachable nil_safe nil_keys js cleanPath
                (snd (Giza_get nil_safe nil_keys cleanPath g path opts))"

subsection \<open>Notions used in the statements\<close>

text \<open>The node of a tree reached from the root by a list of layers, if the walk stays in nodes.\<close>

fun node_at :: "string list \<Rightarrow> 'v node \<Rightarrow> 'v node option" where
  "node_at [] node = Some node"
| "node_at (l # layers) node =
     (case map_of node (slash # l) of
        Some (Sub child) \<Rightarrow> node_at layers child
      | _ \<Rightarrow> None)"

text \<open>
  The spec's invariant of the tree: a key that names a child (it starts with the
  separator) holds a node, in the tree and in every node below. Under the other keys
  any value may stand.
\<close>

definition child_name :: "string \<Rightarrow> bool" where
  "child_name key = (key \<noteq> [] \<and> hd key = slash)"

fun well_formed :: "'v node \<Rightarrow> bool" where
  "well_formed [] = True"
| "well_formed ((key, Sub child) # props) =
     ((if child_name key then well_formed child else True) \<and> well_formed props)"
| "well_formed ((key, val) # props) = (\<not> child_name key \<and> well_formed props)"

text \<open>
  A path runs through nodes in a tree when, as far as the tree holds something under the
  keys the path names, it holds nodes: no value that is not a node stands where the
  path names a child. Every path does in a tree that keeps the invariant.
\<close>

fun through_nodes :: "string list \<Rightarrow> 'v node \<Rightarrow> bool" where
  "through_nodes [] node = True"
| "through_nodes (l # layers) node =
     (case map_of node (slash # l) of
        None \<Rightarrow> True
      | Some (Sub child) \<Rightarrow> through_nodes layers child
      | Some val \<Rightarrow> False)"

text \<open>The names of the events of a store operation, in order.\<close>

definition event_names :: "'v emission list \<Rightarrow> string list" where
  "event_names ems = map (\<lambda>(p, e, d). e) ems"







text \<open>
  What the climb of \<^verbatim>\<open>bubbleEvent\<close> visits, for any string: one channel for every
  separator of the path, from the last to the first, namely the part of the path before
  that separator, or \<^verbatim>\<open>/\<close> when that part is empty.
\<close>

definition slash_positions :: "string \<Rightarrow> nat list" where
  "slash_positions path = filter (\<lambda>i. path ! i = slash) [0..<length path]"

definition climb :: "string \<Rightarrow> string list" where
  "climb path = map (\<lambda>i. if i = 0 then [slash] else take i path) (rev (slash_positions path))"

text \<open>Dispatching a list of argument arrays on one bus, one after the other.\<close>

fun dispatch_all ::
  "'o equality \<Rightarrow> bus_id \<Rightarrow> ('c, 'o) bus \<Rightarrow> 'o args list \<Rightarrow> ('c, 'o) run"
where
  "dispatch_all js b bus [] = ([], None)"
| "dispatch_all js b bus (a # as) = and_then (bus_emit js b bus a) (dispatch_all js b bus as)"

text \<open>The dispatches of a run: the bus and the first element of the array, in order.\<close>

fun channels :: "('c, 'o) action list \<Rightarrow> (bus_id \<times> string) list" where
  "channels [] = []"
| "channels (Dispatch b a # acts) = (b, a_path a) # channels acts"
| "channels (Invoke c e s x # acts) = channels acts"

text \<open>The callbacks a run has called, in order.\<close>

fun invoked :: "('c, 'o) action list \<Rightarrow> 'c list" where
  "invoked [] = []"
| "invoked (Dispatch b a # acts) = invoked acts"
| "invoked (Invoke c e s x # acts) = c # invoked acts"

text \<open>The sources a run has shown to the buses and to the callbacks.\<close>

fun sources :: "('c, 'o) action list \<Rightarrow> 'o source list" where
  "sources [] = []"
| "sources (Dispatch b a # acts) = a_source a # sources acts"
| "sources (Invoke c e s x # acts) = s # sources acts"

text \<open>
  When a constraint of a filter is met by a value. \<open>meets\<close> is the rule of the code,
  with the two equalities of the language; \<open>meets_spec\<close> is the rule in the words of the
  spec: the constraint is absent, or a string equal to the value, or a list that is
  empty or contains the value.
\<close>

definition meets :: "'o equality \<Rightarrow> 'o extra field \<Rightarrow> 'o constraint \<Rightarrow> bool" where
  "meets js v c =
     (case c of
        Unset \<Rightarrow> True
      | Single s \<Rightarrow> \<not> differs js s v
      | Many xs \<Rightarrow> xs = [] \<or> contains js xs v
      | Invalid \<Rightarrow> False)"

definition meets_spec :: "'o extra field \<Rightarrow> 'o constraint \<Rightarrow> bool" where
  "meets_spec v c =
     (case c of
        Unset \<Rightarrow> True
      | Single s \<Rightarrow> v = Present (EStr s)
      | Many xs \<Rightarrow> xs = [] \<or> v \<in> Present ` set xs
      | Invalid \<Rightarrow> False)"

text \<open>
  When a filter matches: by the spec, with the names read like the types
  (\<open>filter_matches_spec\<close>), and by the code, where the empty string as a names
  constraint constrains nothing (\<open>filter_matches\<close>).
\<close>

definition filter_matches_spec :: "string \<Rightarrow> 'o extra field \<Rightarrow> 'o filter \<Rightarrow> bool" where
  "filter_matches_spec eventName type f =
     (meets_spec type (types f) \<and> meets_spec (Present (EStr eventName)) (names f))"

definition filter_matches ::
  "'o equality \<Rightarrow> string \<Rightarrow> 'o extra field \<Rightarrow> 'o filter \<Rightarrow> bool"
where
  "filter_matches js eventName type f =
     (meets js type (types f)
      \<and> (names f = Single [] \<or> meets js (Present (EStr eventName)) (names f)))"

definition well_typed :: "'o filter \<Rightarrow> bool" where
  "well_typed f = (types f \<noteq> Invalid \<and> names f \<noteq> Invalid)"

text \<open>
  The constraints of a list of filters in the order the loop examines them, each with
  its verdict: met, not met, or ill-typed (with the message of the exception). The
  outcome of the loop is decided by the first verdict that is not \<open>Met\<close>.
\<close>

datatype verdict = Met | Unmet | Ill string

definition types_verdict :: "'o equality \<Rightarrow> 'o extra field \<Rightarrow> 'o constraint \<Rightarrow> verdict" where
  "types_verdict js type c =
     (if c = Invalid then Ill ''Invalid types provided''
      else if meets js type c then Met else Unmet)"

definition names_verdict :: "'o equality \<Rightarrow> string \<Rightarrow> 'o constraint \<Rightarrow> verdict" where
  "names_verdict js eventName c =
     (if c = Invalid then Ill ''Invalid name provided''
      else if c = Single [] \<or> meets js (Present (EStr eventName)) c then Met else Unmet)"

definition verdicts ::
  "'o equality \<Rightarrow> string \<Rightarrow> 'o extra field \<Rightarrow> 'o filter list \<Rightarrow> verdict list"
where
  "verdicts js eventName type fs =
     concat (map (\<lambda>f. [types_verdict js type (types f), names_verdict js eventName (names f)]) fs)"

definition outcome :: "verdict list \<Rightarrow> error + bool" where
  "outcome vs =
     (case find (\<lambda>v. v \<noteq> Met) vs of
        None \<Rightarrow> Inr True
      | Some (Ill msg) \<Rightarrow> Inl (Error msg)
      | Some v \<Rightarrow> Inr False)"



text \<open>
  The closures of a channel that let an event through, and the calls they make: each
  calls its callback with the event name, the source and the values passed along.
\<close>

definition accepts :: "'o equality \<Rightarrow> ('c, 'o) wrapper \<Rightarrow> 'o args \<Rightarrow> bool" where
  "accepts js w args =
     (matchFilter js (a_event args) (s_type (a_source args)) (w_filters w) = Inr True
      \<and> (w_triggered w \<or> \<not> s_triggered (a_source args)))"

definition calls ::
  "'o equality \<Rightarrow> ('c, 'o) wrapper list \<Rightarrow> 'o args \<Rightarrow> ('c, 'o) action list"
where
  "calls js ws args =
     map (\<lambda>w. Invoke (w_callback w) (a_event args) (a_source args) (a_extra args))
       (filter (\<lambda>w. accepts js w args) ws)"



text \<open>
  What an emission does when nothing raises: the dispatch on the direct bus at the
  cleaned path and the calls of the closures registered there, then, for each channel
  of the climb, the dispatch on the bubble bus with that channel as first element of
  the array and the calls of the closures registered there. Every call hands the event
  name, the source and the values passed along to the callback.
\<close>

definition emission ::
  "'o equality \<Rightarrow> (string \<Rightarrow> string) \<Rightarrow> ('c, 'o) bubbler \<Rightarrow> string \<Rightarrow> event \<Rightarrow> 'o extra list
     \<Rightarrow> ('c, 'o) action list"
where
  "emission js cleanPath b path event extra =
     (let p = cleanPath path;
          args = \<lparr>a_path = p, a_event = event_name event,
                  a_source = emit_source b p event extra, a_extra = extra\<rparr>
      in Dispatch Direct args # calls js (eventBus b p) args
           @ concat (map (\<lambda>q. Dispatch Bubble (args\<lparr>a_path := q\<rparr>)
                                 # calls js (bubbleBus b q) args) (climb p)))"

text \<open>The closures listening at a channel, on either bus.\<close>

definition listeners_at :: "('c, 'o) bubbler \<Rightarrow> string \<Rightarrow> ('c, 'o) wrapper set" where
  "listeners_at b name = set (eventBus b name) \<union> set (bubbleBus b name)"

text \<open>The states of a bubbler: what its constructor and its methods can produce.\<close>

inductive built :: "(string \<Rightarrow> string) \<Rightarrow> ('c, 'o) bubbler \<Rightarrow> bool"
  for cleanPath :: "string \<Rightarrow> string"
where
  new: "built cleanPath (Bubbler store)"
| subscribe: "built cleanPath b
    \<Longrightarrow> built cleanPath (Bubbler_subscribe cleanPath b path callback opts)"
| clear: "built cleanPath b \<Longrightarrow> built cleanPath (Bubbler_clearSubscriptions b path)"
| attach: "built cleanPath b \<Longrightarrow> built cleanPath (setStore b store)"

section \<open>Properties of the store\<close>

subsection \<open>Values and nodes\<close>

lemma strip_trailing_idem: "strip_trailing (strip_trailing p) = strip_trailing p"
  by (simp add: strip_trailing_def)

lemma has_Sub [simp]: "has nil_safe (Sub props) key = Inr (map_of props key \<noteq> None)"
  by (simp add: has_def nullish_def own_def)

lemma read_prop_Sub [simp]:
  "read_prop (Sub props) key = Inr (case map_of props key of Some v \<Rightarrow> v | None \<Rightarrow> Undefined)"
  by (simp add: read_prop_def nullish_def own_def)

lemma assign_prop_Sub [simp]: "assign_prop (Sub props) key val = Inr (Sub (AList.update key val props))"
  by (simp add: assign_prop_def)

lemma delete_prop_Sub [simp]: "delete_prop (Sub props) key = Inr (Sub (AList.delete key props))"
  by (simp add: delete_prop_def)

lemma child_name_slash [simp]: "child_name (slash # l)"
  by (simp add: child_name_def)

text \<open>The invariant, key by key.\<close>

lemma well_formed_lookup:
  "well_formed props \<Longrightarrow> map_of props key = Some e \<Longrightarrow> child_name key
     \<Longrightarrow> \<exists>child. e = Sub child \<and> well_formed child"
  by (induction props rule: well_formed.induct) (auto split: if_splits)

lemma well_formed_Cons:
  "well_formed ((key, e) # props) \<longleftrightarrow>
     (child_name key \<longrightarrow> (\<exists>child. e = Sub child \<and> well_formed child)) \<and> well_formed props"
  by (cases e) auto

lemma well_formed_update:
  "well_formed props \<Longrightarrow> (child_name key \<longrightarrow> (\<exists>child. e = Sub child \<and> well_formed child))
     \<Longrightarrow> well_formed (AList.update key e props)"
proof (induction props)
  case Nil
  then show ?case by (simp add: well_formed_Cons)
next
  case (Cons p props)
  obtain k v where p: "p = (k, v)" by (cases p)
  from Cons show ?case unfolding p by (auto simp: well_formed_Cons)
qed

lemma well_formed_delete: "well_formed props \<Longrightarrow> well_formed (AList.delete key props)"
proof (induction props)
  case Nil
  then show ?case by simp
next
  case (Cons p props)
  obtain k v where p: "p = (k, v)" by (cases p)
  from Cons show ?case unfolding p by (auto simp: well_formed_Cons)
qed

lemma well_formed_new_Map: "well_formed new_Map"
  by (simp add: new_Map_def)

subsection \<open>Path resolution\<close>

lemma through_nodes_Nil [simp]: "through_nodes ls []"
  by (cases ls) simp_all

lemma well_formed_through_nodes: "well_formed props \<Longrightarrow> through_nodes ls props"
proof (induction ls arbitrary: props)
  case Nil
  show ?case by simp
next
  case (Cons l ls)
  show ?case
  proof (cases "map_of props (slash # l)")
    case None
    then show ?thesis by simp
  next
    case (Some e)
    from well_formed_lookup [OF Cons.prems Some] obtain child where
      "e = Sub child" "well_formed child"
      by auto
    with Some Cons.IH show ?thesis by simp
  qed
qed

text \<open>
  With creation enabled, when the path runs through nodes, the walk always resolves: it
  ends at a node of the rebuilt tree. The rebuilt tree keeps the invariant if the tree
  did.
\<close>

lemma walk_create_through_nodes:
  "through_nodes ls props \<Longrightarrow>
     \<exists>props' ns cur.
        walk nil_safe True ls par dn cr (Sub props) = Inr (Sub props', Some ns)
        \<and> current ns = Sub cur \<and> node_at ls props' = Some cur
        \<and> (well_formed props \<longrightarrow> well_formed props' \<and> well_formed cur)"
proof (induction ls arbitrary: par dn cr props)
  case Nil
  then show ?case by simp
next
  case (Cons l ls)
  let ?k = "slash # l"
  show ?case
  proof (cases "map_of props ?k")
    case None
    let ?props1 = "AList.update ?k (Sub new_Map) props"
    have "through_nodes ls (new_Map :: 'a node)"
      by (simp add: new_Map_def)
    from Cons.IH [OF this, of "Sub ?props1" "Some ?k" True]
    obtain child' ns cur where
      w: "walk nil_safe True ls (Sub ?props1) (Some ?k) True (Sub new_Map)
            = Inr (Sub child', Some ns)"
      and c: "current ns = Sub cur" "node_at ls child' = Some cur"
        "well_formed (new_Map :: 'a node) \<longrightarrow> well_formed child' \<and> well_formed cur"
      by blast
    from c(3) have wfc: "well_formed child'" "well_formed cur"
      by (simp_all add: well_formed_new_Map)
    have wf2: "well_formed props \<longrightarrow> well_formed (AList.update ?k (Sub child') ?props1)"
    proof
      assume wf: "well_formed props"
      have wf1: "well_formed ?props1"
        by (rule well_formed_update [OF wf]) (simp add: well_formed_new_Map)
      show "well_formed (AList.update ?k (Sub child') ?props1)"
        by (rule well_formed_update [OF wf1]) (simp add: wfc)
    qed
    have "walk nil_safe True (l # ls) par dn cr (Sub props)
            = Inr (Sub (AList.update ?k (Sub child') ?props1), Some ns)"
      using None w by (simp add: Let_def relink_def update_conv')
    moreover have "node_at (l # ls) (AList.update ?k (Sub child') ?props1) = Some cur"
      using c(2) by (simp add: update_conv')
    ultimately show ?thesis using c(1) wfc(2) wf2 by blast
  next
    case (Some e)
    with Cons.prems obtain child where
      e: "e = Sub child" and tn: "through_nodes ls child"
      by (cases e) simp_all
    from Cons.IH [OF tn, of "Sub props" "Some ?k" cr]
    obtain child' ns cur where
      w: "walk nil_safe True ls (Sub props) (Some ?k) cr (Sub child) = Inr (Sub child', Some ns)"
      and c: "current ns = Sub cur" "node_at ls child' = Some cur"
        "well_formed child \<longrightarrow> well_formed child' \<and> well_formed cur"
      by blast
    have wf2: "well_formed props
        \<longrightarrow> well_formed (AList.update ?k (Sub child') props) \<and> well_formed cur"
    proof
      assume wf: "well_formed props"
      from well_formed_lookup [OF wf Some] e have "well_formed child" by auto
      with c(3) have wfc: "well_formed child'" "well_formed cur" by simp_all
      have "well_formed (AList.update ?k (Sub child') props)"
        by (rule well_formed_update [OF wf]) (simp add: wfc)
      with wfc show "well_formed (AList.update ?k (Sub child') props) \<and> well_formed cur"
        by simp
    qed
    have "walk nil_safe True (l # ls) par dn cr (Sub props)
            = Inr (Sub (AList.update ?k (Sub child') props), Some ns)"
      using Some e w by (simp add: Let_def relink_def)
    moreover have "node_at (l # ls) (AList.update ?k (Sub child') props) = Some cur"
      using c(2) by (simp add: update_conv')
    ultimately show ?thesis using c(1) wf2 by blast
  qed
qed

text \<open>Without creation the walk leaves the tree as it is.\<close>

lemma walk_False_same:
  "walk nil_safe False ls par dn cr obj = Inr (obj', r) \<Longrightarrow> obj' = obj"
proof (induction ls arbitrary: par dn cr obj obj' r)
  case Nil
  then show ?case by auto
next
  case (Cons l ls)
  let ?k = "slash # l"
  from Cons.prems obtain found where h: "has nil_safe obj ?k = Inr found"
    by (cases "has nil_safe obj ?k") (auto simp: Let_def)
  show ?case
  proof (cases found)
    case False
    with h Cons.prems show ?thesis by (simp add: Let_def)
  next
    case True
    with h Cons.prems obtain child where rp: "read_prop obj ?k = Inr child"
      by (cases "read_prop obj ?k") (auto simp: Let_def)
    with h True Cons.prems obtain child' where
      w: "walk nil_safe False ls obj (Some ?k) cr child = Inr (child', r)" and
      o': "obj' = (case obj of Sub props \<Rightarrow> Sub (AList.update ?k child' props) | _ \<Rightarrow> obj)"
      by (auto simp: Let_def relink_def split: sum.splits)
    from Cons.IH [OF w] have same: "child' = child" .
    show ?thesis
    proof (cases obj)
      case (Sub props)
      from h True Sub obtain v where m: "map_of props ?k = Some v" by auto
      with rp Sub have "v = child" by simp
      with m o' same Sub show ?thesis by (simp add: update_triv)
    qed (use o' in simp_all)
  qed
qed

lemma walk_False_node_at:
  "node_at ls props = Some c
     \<Longrightarrow> \<exists>ns. walk nil_safe False ls par dn cr (Sub props) = Inr (Sub props, Some ns)
              \<and> current ns = Sub c"
proof (induction ls arbitrary: par dn cr props)
  case Nil
  then show ?case by auto
next
  case (Cons l ls)
  from Cons.prems obtain child where
    m: "map_of props (slash # l) = Some (Sub child)" and na: "node_at ls child = Some c"
    by (auto split: option.splits entry.splits)
  from Cons.IH [OF na, of "Sub props" "Some (slash # l)" cr] obtain ns where
    "walk nil_safe False ls (Sub props) (Some (slash # l)) cr (Sub child)
       = Inr (Sub child, Some ns)" "current ns = Sub c"
    by blast
  with m show ?case by (simp add: Let_def relink_def update_triv)
qed

lemma parsePath_False_same:
  "parsePath nil_safe path data False = Inr (data1, r) \<Longrightarrow> data1 = data"
proof -
  assume a: "parsePath nil_safe path data False = Inr (data1, r)"
  then obtain root where
    w: "walk nil_safe False (path_layers path) JNull None False (Sub data) = Inr (root, r)"
    and d: "data1 = as_node root data"
    by (auto simp: parsePath_def split: sum.splits)
  from walk_False_same [OF w] d show ?thesis by (simp add: as_node_def)
qed

text \<open>A write through the reference to a node puts the new value in the node's place.\<close>

lemma modify_at_node:
  "node_at ls props = Some c \<Longrightarrow>
     \<exists>props'. modify_at ls (\<lambda>old. Sub c') (Sub props) = Sub props'
        \<and> node_at ls props' = Some c'
        \<and> (well_formed props \<and> well_formed c' \<longrightarrow> well_formed props')"
proof (induction ls arbitrary: props)
  case Nil
  then show ?case by simp
next
  case (Cons l ls)
  let ?k = "slash # l"
  from Cons.prems obtain child where
    m: "map_of props ?k = Some (Sub child)" and na: "node_at ls child = Some c"
    by (auto split: option.splits entry.splits)
  from Cons.IH [OF na] obtain child' where
    c: "modify_at ls (\<lambda>old. Sub c') (Sub child) = Sub child'" "node_at ls child' = Some c'"
      "well_formed child \<and> well_formed c' \<longrightarrow> well_formed child'"
    by blast
  have "modify_at (l # ls) (\<lambda>old. Sub c') (Sub props) = Sub (AList.update ?k (Sub child') props)"
    using m c(1) by simp
  moreover have "node_at (l # ls) (AList.update ?k (Sub child') props) = Some c'"
    using c(2) by (simp add: update_conv')
  moreover have "well_formed props \<and> well_formed c'
      \<longrightarrow> well_formed (AList.update ?k (Sub child') props)"
  proof
    assume a: "well_formed props \<and> well_formed c'"
    with well_formed_lookup [OF _ m] have "well_formed child" by auto
    with a c(3) have "well_formed child'" by simp
    then show "well_formed (AList.update ?k (Sub child') props)"
      by (intro well_formed_update [OF conjunct1 [OF a]]) simp
  qed
  ultimately show ?case by blast
qed

lemma write_back_node:
  assumes "node_at ls props = Some c"
  shows "node_at ls (write_back ls (Sub c') props) = Some c'"
    and "well_formed props \<Longrightarrow> well_formed c' \<Longrightarrow> well_formed (write_back ls (Sub c') props)"
  using modify_at_node [OF assms, of c'] by (auto simp: write_back_def as_node_def)

text \<open>
  What \<^verbatim>\<open>save\<close> does when the path runs through nodes: it returns, having emitted
  around the assignment to the resolved node.
\<close>

lemma Store_save_through_nodes:
  fixes data :: "'v node"
  assumes "through_nodes (path_layers (strip_trailing path)) data"
  shows "\<exists>data1 (ns :: 'v nodes) cur data'.
    parsePath nil_safe (strip_trailing path) data True = Inr (data1, Some ns)
    \<and> current ns = Sub cur
    \<and> createMode nil_safe ns key = Inr (created ns)
    \<and> node_at (path_layers (strip_trailing path)) data1 = Some cur
    \<and> node_at (path_layers (strip_trailing path)) data' = Some (AList.update key val cur)
    \<and> (well_formed data \<longrightarrow> \<not> child_name key \<longrightarrow> well_formed data')
    \<and> Store_save nil_safe data path key val =
        ((if created ns then [(strip_trailing path, ''pre-create'', data1)] else [])
           @ [(strip_trailing path, ''pre-update'', data1)]
           @ (if created ns then [(strip_trailing path, ''post-create'', data')] else [])
           @ [(strip_trailing path, ''post-update'', data')],
         Inr data')"
proof -
  let ?p = "strip_trailing path"
  let ?ls = "path_layers ?p"
  from walk_create_through_nodes [OF assms, of nil_safe JNull None False]
  obtain data1 and ns :: "'v nodes" and cur where
    w: "walk nil_safe True ?ls JNull None False (Sub data) = Inr (Sub data1, Some ns)"
    and c: "current ns = Sub cur" "node_at ?ls data1 = Some cur"
      "well_formed data \<longrightarrow> well_formed data1 \<and> well_formed cur"
    by blast
  let ?data' = "write_back ?ls (Sub (AList.update key val cur)) data1"
  have pp: "parsePath nil_safe ?p data True = Inr (data1, Some ns)"
    using w by (simp add: parsePath_def as_node_def)
  have cm: "createMode nil_safe ns key = Inr (created ns)"
    using c(1) by (simp add: createMode_def Let_def)
  have na: "node_at ?ls ?data' = Some (AList.update key val cur)"
    using c(2) by (rule write_back_node)
  have wf: "well_formed data \<longrightarrow> \<not> child_name key \<longrightarrow> well_formed ?data'"
  proof (intro impI)
    assume "well_formed data" and k: "\<not> child_name key"
    with c(3) have w1: "well_formed data1" and wc: "well_formed cur" by simp_all
    from k have "well_formed (AList.update key val cur)"
      by (intro well_formed_update [OF wc]) simp
    with c(2) w1 show "well_formed ?data'" by (intro write_back_node)
  qed
  have "Store_save nil_safe data path key val =
        ((if created ns then [(?p, ''pre-create'', data1)] else [])
           @ [(?p, ''pre-update'', data1)]
           @ (if created ns then [(?p, ''post-create'', ?data')] else [])
           @ [(?p, ''post-update'', ?data')],
         Inr ?data')"
    using pp cm c(1) by (simp add: Store_save_def Let_def)
  with pp c(1,2) cm na wf show ?thesis by blast
qed

text \<open>
  Without creation, on a tree that keeps the invariant, a walk that resolves ends at a
  node of the tree, and its parent is the node one layer above.
\<close>

lemma walk_False_well_formed:
  "well_formed props \<Longrightarrow> walk nil_safe False ls par dn cr (Sub props) = Inr (r, Some ns)
     \<Longrightarrow> \<exists>c. current ns = Sub c \<and> node_at ls props = Some c
            \<and> (ls \<noteq> [] \<longrightarrow>
                 (\<exists>p. parent ns = Sub p \<and> node_at (butlast ls) props = Some p))"
proof (induction ls arbitrary: par dn cr props r)
  case Nil
  then show ?case by auto
next
  case (Cons l ls)
  let ?k = "slash # l"
  from Cons.prems(2) obtain e where m: "map_of props ?k = Some e"
    by (cases "map_of props ?k") (auto simp: Let_def)
  from well_formed_lookup [OF Cons.prems(1) m] obtain child where
    e: "e = Sub child" and wfc: "well_formed child"
    by auto
  from Cons.prems(2) m e obtain child' where
    w: "walk nil_safe False ls (Sub props) (Some ?k) cr (Sub child) = Inr (child', Some ns)"
    by (auto simp: Let_def relink_def split: sum.splits)
  from Cons.IH [OF wfc w] obtain c where
    c: "current ns = Sub c" "node_at ls child = Some c"
    and p: "ls \<noteq> [] \<longrightarrow> (\<exists>p. parent ns = Sub p \<and> node_at (butlast ls) child = Some p)"
    by blast
  have "\<exists>p. parent ns = Sub p \<and> node_at (butlast (l # ls)) props = Some p"
  proof (cases "ls = []")
    case True
    with w show ?thesis by auto
  next
    case False
    with p m e show ?thesis by auto
  qed
  with c m e show ?case by auto
qed

text \<open>
  The invariant holds in the empty store, and \<^verbatim>\<open>save\<close> under a key that names no child
  and \<^verbatim>\<open>delete\<close> keep it: it holds in every store filled as the spec asks.
\<close>

lemma well_formed_Store_save:
  assumes "well_formed data" and "\<not> child_name key"
    and "Store_save nil_safe data path key val = (ems, Inr data')"
  shows "well_formed data'"
  using Store_save_through_nodes [OF well_formed_through_nodes [OF assms(1)], of nil_safe path key val]
    assms by auto

lemma node_at_well_formed:
  "well_formed props \<Longrightarrow> node_at ls props = Some c \<Longrightarrow> well_formed c"
proof (induction ls arbitrary: props)
  case Nil
  then show ?case by simp
next
  case (Cons l ls)
  from Cons.prems(2) obtain child where
    m: "map_of props (slash # l) = Some (Sub child)" and na: "node_at ls child = Some c"
    by (auto split: option.splits entry.splits)
  from well_formed_lookup [OF Cons.prems(1) m] have "well_formed child" by auto
  with na show ?case by (rule Cons.IH [rotated -1])
qed

lemma well_formed_Store_delete:
  fixes data :: "'v node"
  assumes wf: "well_formed data"
    and del: "Store_delete nil_safe data path key = (ems, Inr (data', r))"
  shows "well_formed data'"
proof -
  let ?p = "strip_trailing path"
  let ?ls = "path_layers ?p"
  from del obtain data1 res where
    pp: "parsePath nil_safe ?p data False = Inr (data1, res)"
    by (cases "parsePath nil_safe ?p data False")
       (auto simp: Store_delete_def Let_def)
  then have d1: "data1 = data" by (rule parsePath_False_same)
  show ?thesis
  proof (cases res)
    case None
    with del pp d1 wf show ?thesis
      by (cases key)
         (auto simp: Store_delete_def Let_def delete_prop_def has_def nullish_def
            split: sum.splits bool.splits if_splits)
  next
    case (Some ns)
    with pp obtain root where
      w: "walk nil_safe False ?ls JNull None False (Sub data) = Inr (root, Some ns)"
      by (auto simp: parsePath_def split: sum.splits)
    from walk_False_well_formed [OF wf w] obtain c where
      c: "current ns = Sub c" "node_at ?ls data = Some c"
      and p: "?ls \<noteq> [] \<longrightarrow> (\<exists>p. parent ns = Sub p \<and> node_at (butlast ?ls) data = Some p)"
      by blast
    have wfc: "well_formed c" using wf c(2) by (rule node_at_well_formed)
    show ?thesis
    proof (cases key)
      case (Some k)
      show ?thesis
      proof (cases "map_of c k")
        case None
        with del pp d1 \<open>res = Some ns\<close> Some c wf show ?thesis
          by (simp add: Store_delete_def Let_def)
      next
        case found: (Some v)
        with del pp d1 \<open>res = Some ns\<close> Some c
        have "data' = write_back ?ls (Sub (AList.delete k c)) data"
          by (simp add: Store_delete_def Let_def)
        with wf wfc c(2) show ?thesis
          by (simp add: write_back_node(2) well_formed_delete)
      qed
    next
      case None
      show ?thesis
      proof (cases "?ls = []")
        case True
        with w have "parent ns = JNull" by auto
        with del pp \<open>res = Some ns\<close> None show ?thesis
          by (simp add: Store_delete_def Let_def delete_prop_def nullish_def)
      next
        case False
        with p obtain q where q: "parent ns = Sub q" "node_at (butlast ?ls) data = Some q"
          by blast
        have wfq: "well_formed q" using wf q(2) by (rule node_at_well_formed)
        from del pp d1 \<open>res = Some ns\<close> None q obtain name where
          "data' = write_back (butlast ?ls) (Sub (AList.delete name q)) data"
          by (auto simp: Store_delete_def Let_def)
        with wf wfq q(2) show ?thesis
          by (simp add: write_back_node(2) well_formed_delete)
      qed
    qed
  qed
qed

text \<open>
  Where a key that names a child holds a value that is no node, the code goes on with
  that value: an assignment through a primitive does nothing, and one through
  \<^verbatim>\<open>undefined\<close> raises.
\<close>

lemma save_through_stored_value:
  "Store_save True [(''/a'', Val (5::nat))] ''/a'' ''x'' (Val 1)
     = ([(''/a'', ''pre-update'', [(''/a'', Val 5)]), (''/a'', ''post-update'', [(''/a'', Val 5)])],
        Inr [(''/a'', Val 5)])
   \<and> Store_get True True [(''/a'', Val (5::nat))] ''/a'' (Key ''x'') None = Inr Undefined
   \<and> Store_save True [(''/a'', Val (5::nat))] ''/a/b'' ''x'' (Val 1)
     = ([(''/a/b'', ''pre-create'', [(''/a'', Val 5)]), (''/a/b'', ''pre-update'', [(''/a'', Val 5)])],
        Inl TypeError)
   \<and> Store_save False [(''/a'', Val (5::nat))] ''/a/b'' ''x'' (Val 1) = ([], Inl TypeError)"
  by code_simp

subsection \<open>The claims about the store\<close>

text \<open>
  C1. The claim: \<^verbatim>\<open>createMode\<close> is true if an ancestor was created or the key is not yet
  on the resolved node, so saving a new key onto a node that exists emits \<^verbatim>\<open>pre-create\<close>
  and \<^verbatim>\<open>post-create\<close>. The code tests \<^verbatim>\<open>createMode && !_.has(nodes.current, key)\<close> before
  it sets \<^verbatim>\<open>createMode = true\<close>, so the variable keeps the value of \<^verbatim>\<open>nodes.created\<close>.
  On the store that holds the node \<^verbatim>\<open>/a\<close> with the key \<^verbatim>\<open>x\<close>, the path \<^verbatim>\<open>/a\<close> resolves
  and the key \<^verbatim>\<open>y\<close> is absent, and \<^verbatim>\<open>save('/a', 'y', 2)\<close> emits \<^verbatim>\<open>pre-update\<close> and
  \<^verbatim>\<open>post-update\<close> only.
\<close>

theorem C1_save_new_key_emits_no_create:
  "Store_exists nil_safe [(''/a'', Sub [(''x'', Val (1::nat))])] ''/a'' None = Inr True
   \<and> Store_exists nil_safe [(''/a'', Sub [(''x'', Val (1::nat))])] ''/a'' (Some ''y'') = Inr False
   \<and> event_names
        (fst (Store_save nil_safe [(''/a'', Sub [(''x'', Val (1::nat))])] ''/a'' ''y'' (Val 2)))
       = [''pre-update'', ''post-update'']"
proof (cases nil_safe)
  case True
  show ?thesis unfolding True by code_simp
next
  case False
  show ?thesis unfolding False by code_simp
qed

text \<open>
  C2. The claim: \<^verbatim>\<open>get\<close> and \<^verbatim>\<open>delete\<close> on a path whose ancestors do not all exist fail
  with a typed NotFound error. The code reads \<^verbatim>\<open>nodes.current\<close> and \<^verbatim>\<open>nodes.parent\<close>
  without the test \<^verbatim>\<open>if (!nodes)\<close> that \<^verbatim>\<open>exists\<close> makes. On the empty store, for the
  path \<^verbatim>\<open>/a/b\<close>: \<^verbatim>\<open>exists\<close> answers false; \<^verbatim>\<open>get\<close> with the recursive flag returns
  \<^verbatim>\<open>undefined\<close>; \<^verbatim>\<open>get\<close> with a key returns \<^verbatim>\<open>undefined\<close> or raises a TypeError, as
  underscore decides; \<^verbatim>\<open>delete\<close> without a key emits \<^verbatim>\<open>pre-delete\<close> and then raises a
  TypeError; \<^verbatim>\<open>delete\<close> with a key returns false or raises a TypeError.
\<close>

theorem C2_unresolved_path_not_guarded:
  "Store_exists nil_safe ([]::nat node) ''/a/b'' None = Inr False
   \<and> Store_get True nil_keys ([]::nat node) ''/a/b'' (Flag True) None = Inr Undefined
   \<and> Store_get False nil_keys ([]::nat node) ''/a/b'' (Flag True) None = Inr Undefined
   \<and> Store_get True nil_keys ([]::nat node) ''/a/b'' (Key ''k'') None = Inr Undefined
   \<and> Store_get False nil_keys ([]::nat node) ''/a/b'' (Key ''k'') None = Inl TypeError
   \<and> Store_delete True ([]::nat node) ''/a/b'' None
       = ([(''/a/b'', ''pre-delete'', [])], Inl TypeError)
   \<and> Store_delete False ([]::nat node) ''/a/b'' None
       = ([(''/a/b'', ''pre-delete'', [])], Inl TypeError)
   \<and> Store_delete True ([]::nat node) ''/a/b'' (Some ''k'') = ([], Inr ([], False))
   \<and> Store_delete False ([]::nat node) ''/a/b'' (Some ''k'') = ([], Inl TypeError)"
proof -
  have p: "parsePath s ''/a/b'' ([]::nat node) False = Inr ([], None)" for s
    by (simp add: parsePath_def path_layers_def slash_def Let_def has_def nullish_def own_def
        as_node_def)
  have s: "strip_trailing ''/a/b'' = ''/a/b''"
    by (simp add: strip_trailing_def slash_def)
  show ?thesis
    by (simp add: Store_exists_def Store_get_def Store_delete_def Let_def s p has_def
        nullish_def delete_prop_def)
qed



text \<open>
  C5. For every path and every key, when the path runs through nodes, as every path
  does in a tree that keeps the invariant of the spec, \<^verbatim>\<open>save(p, k, v)\<close> returns and
  \<^verbatim>\<open>get(p, k)\<close> on the tree it leaves returns \<open>v\<close>.
\<close>

theorem C5_save_then_get:
  fixes data :: "'v node"
  assumes "through_nodes (path_layers (strip_trailing path)) data"
  shows "\<exists>ems data'.
    Store_save nil_safe data path key val = (ems, Inr data')
    \<and> Store_get nil_safe nil_keys data' path (Key key) recursive = Inr val"
proof -
  let ?p = "strip_trailing path"
  from Store_save_through_nodes [OF assms, of nil_safe key val]
  obtain ems data' cur where
    s: "Store_save nil_safe data path key val = (ems, Inr data')" and
    na: "node_at (path_layers ?p) data' = Some (AList.update key val cur)"
    by blast
  from walk_False_node_at [OF na, of nil_safe JNull None False] obtain ns' :: "'v nodes" where
    "parsePath nil_safe ?p data' False = Inr (data', Some ns')"
    "current ns' = Sub (AList.update key val cur)"
    by (auto simp: parsePath_def as_node_def)
  then have "Store_get nil_safe nil_keys data' path (Key key) recursive = Inr val"
    by (simp add: Store_get_def Let_def update_conv')
  with s show ?thesis by blast
qed

theorem C5_save_then_get_witness:
  "through_nodes (path_layers (strip_trailing ''/a/b/''))
       [(''/a'', Sub [(''/c'', Val (1::nat)), (''/b'', Sub [(''y'', Val 2)])])]
   \<and> (\<exists>ems data'.
         Store_save False [(''/a'', Sub [(''/c'', Val (1::nat)), (''/b'', Sub [(''y'', Val 2)])])]
             ''/a/b/'' ''y'' (Val 7) = (ems, Inr data')
         \<and> Store_get False False data' ''/a/b/'' (Key ''y'') None = Inr (Val 7))
   \<and> Store_save False [(''/a'', Sub [(''/c'', Val (1::nat)), (''/b'', Sub [(''y'', Val 2)])])]
         ''/a/b/'' ''y'' (Val 7)
       = ([(''/a/b'', ''pre-update'', [(''/a'', Sub [(''/c'', Val 1), (''/b'', Sub [(''y'', Val 2)])])]),
           (''/a/b'', ''post-update'', [(''/a'', Sub [(''/c'', Val 1), (''/b'', Sub [(''y'', Val 7)])])])],
          Inr [(''/a'', Sub [(''/c'', Val 1), (''/b'', Sub [(''y'', Val 7)])])])
   \<and> Store_get False False [(''/a'', Sub [(''/c'', Val (1::nat)), (''/b'', Sub [(''y'', Val 7)])])]
         ''/a/b/'' (Key ''y'') None = Inr (Val 7)"
proof -
  have wf: "through_nodes (path_layers (strip_trailing ''/a/b/''))
       [(''/a'', Sub [(''/c'', Val (1::nat)), (''/b'', Sub [(''y'', Val 2)])])]"
    by code_simp
  have run: "Store_save False [(''/a'', Sub [(''/c'', Val (1::nat)), (''/b'', Sub [(''y'', Val 2)])])]
         ''/a/b/'' ''y'' (Val 7)
       = ([(''/a/b'', ''pre-update'', [(''/a'', Sub [(''/c'', Val 1), (''/b'', Sub [(''y'', Val 2)])])]),
           (''/a/b'', ''post-update'', [(''/a'', Sub [(''/c'', Val 1), (''/b'', Sub [(''y'', Val 7)])])])],
          Inr [(''/a'', Sub [(''/c'', Val 1), (''/b'', Sub [(''y'', Val 7)])])])"
    by code_simp
  have get: "Store_get False False
         [(''/a'', Sub [(''/c'', Val (1::nat)), (''/b'', Sub [(''y'', Val 7)])])]
         ''/a/b/'' (Key ''y'') None = Inr (Val 7)"
    by code_simp
  from C5_save_then_get [OF wf, of False "''y''" "Val 7" False None] wf run get
  show ?thesis by (intro conjI)
qed

text \<open>
  C8. When the path resolves and the key is absent from the resolved node,
  \<^verbatim>\<open>delete(path, key)\<close> returns false, emits nothing and leaves the tree as it is.
\<close>

theorem C8_delete_absent_key:
  assumes "Store_exists nil_safe data path None = Inr True"
    and "Store_exists nil_safe data path (Some key) = Inr False"
  shows "Store_delete nil_safe data path (Some key) = ([], Inr (data, False))"
proof -
  let ?p = "strip_trailing path"
  from assms(1) obtain data1 ns where
    pp: "parsePath nil_safe ?p data False = Inr (data1, Some ns)"
    by (auto simp: Store_exists_def Let_def split: sum.splits option.splits)
  then have "data1 = data" by (rule parsePath_False_same)
  moreover from assms(2) pp have "has nil_safe (current ns) key = Inr False"
    by (simp add: Store_exists_def Let_def)
  ultimately show ?thesis
    using pp by (simp add: Store_delete_def Let_def)
qed

theorem C8_delete_absent_key_witness:
  "Store_exists True [(''/a'', Sub [(''/b'', Sub [(''x'', Val (1::nat))])])] ''/a/b'' None = Inr True
   \<and> Store_exists True [(''/a'', Sub [(''/b'', Sub [(''x'', Val (1::nat))])])] ''/a/b''
       (Some ''missing-key'') = Inr False
   \<and> Store_delete True [(''/a'', Sub [(''/b'', Sub [(''x'', Val (1::nat))])])] ''/a/b''
       (Some ''missing-key'')
       = ([], Inr ([(''/a'', Sub [(''/b'', Sub [(''x'', Val 1)])])], False))"
proof -
  have h1: "Store_exists True [(''/a'', Sub [(''/b'', Sub [(''x'', Val (1::nat))])])] ''/a/b'' None
      = Inr True"
    by code_simp
  have h2: "Store_exists True [(''/a'', Sub [(''/b'', Sub [(''x'', Val (1::nat))])])] ''/a/b''
       (Some ''missing-key'') = Inr False"
    by code_simp
  from h1 h2 C8_delete_absent_key [OF h1 h2] show ?thesis
    by (intro conjI)
qed

section \<open>Properties of the filters\<close>

text \<open>Each branch chain of the loop body gives the verdict on its constraint.\<close>

lemma check_types_verdict:
  "check_types js t c =
     (case types_verdict js t c of
        Met \<Rightarrow> Inr True
      | Unmet \<Rightarrow> Inr False
      | Ill msg \<Rightarrow> Inl (Error msg))"
  by (cases c) (auto simp: check_types_def types_verdict_def meets_def)

lemma check_names_verdict:
  "check_names js e c =
     (case names_verdict js e c of
        Met \<Rightarrow> Inr True
      | Unmet \<Rightarrow> Inr False
      | Ill msg \<Rightarrow> Inl (Error msg))"
  by (cases c) (auto simp: check_names_def names_verdict_def meets_def)

lemma types_verdict_Met: "types_verdict js t c = Met \<longleftrightarrow> meets js t c"
  by (cases c) (auto simp: types_verdict_def meets_def)

lemma names_verdict_Met:
  "names_verdict js e c = Met \<longleftrightarrow> (c = Single [] \<or> meets js (Present (EStr e)) c)"
  by (cases c) (auto simp: names_verdict_def meets_def)

lemma outcome_Nil: "outcome [] = Inr True"
  by (simp add: outcome_def)

lemma outcome_Cons:
  "outcome (v # vs) =
     (case v of Met \<Rightarrow> outcome vs | Unmet \<Rightarrow> Inr False | Ill msg \<Rightarrow> Inl (Error msg))"
  by (cases v) (simp_all add: outcome_def)

text \<open>The loop over the filters.\<close>

lemma matchFilter_outcome: "matchFilter js e t fs = outcome (verdicts js e t fs)"
proof (induction fs)
  case Nil
  show ?case by (simp add: verdicts_def outcome_Nil)
next
  case (Cons f fs)
  have v: "verdicts js e t (f # fs)
      = types_verdict js t (types f) # names_verdict js e (names f) # verdicts js e t fs"
    by (simp add: verdicts_def)
  show ?case
    unfolding v outcome_Cons
    by (simp add: check_types_verdict check_names_verdict Cons.IH
        split: verdict.splits)
qed

lemma outcome_True_iff: "outcome vs = Inr True \<longleftrightarrow> list_all (\<lambda>v. v = Met) vs"
  by (induction vs) (auto simp: outcome_Nil outcome_Cons split: verdict.splits)

lemma matchFilter_True_iff:
  "matchFilter js e t fs = Inr True \<longleftrightarrow> list_all (filter_matches js e t) fs"
  unfolding matchFilter_outcome outcome_True_iff
  by (induction fs)
     (auto simp: verdicts_def filter_matches_def types_verdict_Met names_verdict_Met)

lemma outcome_well_typed:
  "list_all (\<lambda>v. v = Met \<or> v = Unmet) vs \<Longrightarrow> outcome vs = Inr (list_all (\<lambda>v. v = Met) vs)"
  by (induction vs) (auto simp: outcome_Nil outcome_Cons split: verdict.splits)

lemma matchFilter_well_typed:
  "list_all well_typed fs \<Longrightarrow> matchFilter js e t fs = Inr (list_all (filter_matches js e t) fs)"
proof -
  assume wt: "list_all well_typed fs"
  then have "list_all (\<lambda>v. v = Met \<or> v = Unmet) (verdicts js e t fs)"
    by (induction fs)
       (auto simp: verdicts_def well_typed_def types_verdict_def names_verdict_def)
  then have "matchFilter js e t fs = Inr (list_all (\<lambda>v. v = Met) (verdicts js e t fs))"
    unfolding matchFilter_outcome by (rule outcome_well_typed)
  moreover have "list_all (\<lambda>v. v = Met) (verdicts js e t fs)
      \<longleftrightarrow> list_all (filter_matches js e t) fs"
    by (induction fs)
       (auto simp: verdicts_def filter_matches_def types_verdict_Met names_verdict_Met)
  ultimately show ?thesis by simp
qed

text \<open>
  C6, as the claim states it, fails on the code in three ways. A names constraint that
  is the empty string constrains nothing (\<^verbatim>\<open>thisFilter.names === ''\<close> passes), where
  the claim's rule asks for a string equal to the event name. The loop returns false at
  the first constraint that is not met, so an ill-typed value behind it raises nothing.
  And an array is never ill-typed, whatever its elements: a list that holds a value
  that is not a string raises nothing.
\<close>

theorem C6_matchFilter_counterexample:
  "matchFilter \<lparr>loose_eq = (\<lambda>s x. False), strict_eq = (\<lambda>x y. x = y)\<rparr> ''x'' Absent
       [\<lparr>types = Unset, names = Single ''''\<rparr> :: nat filter] = Inr True
   \<and> \<not> filter_matches_spec ''x'' Absent (\<lparr>types = Unset, names = Single ''''\<rparr> :: nat filter)
   \<and> \<not> well_typed (\<lparr>types = Single ''user'', names = Invalid\<rparr> :: nat filter)
   \<and> matchFilter \<lparr>loose_eq = (\<lambda>s x. False), strict_eq = (\<lambda>x y. x = y)\<rparr> ''x'' Absent
       [\<lparr>types = Single ''user'', names = Invalid\<rparr> :: nat filter] = Inr False
   \<and> matchFilter \<lparr>loose_eq = (\<lambda>s x. False), strict_eq = (\<lambda>x y. x = y)\<rparr> ''x'' Absent
       [\<lparr>types = Many [EObj (1::nat)], names = Unset\<rparr>] = Inr False"
  by (simp add: check_types_def check_names_def filter_matches_spec_def meets_spec_def
      well_typed_def differs_def contains_def)

text \<open>
  C6, amended. \<^verbatim>\<open>matchFilter\<close> examines the constraints in order, in each filter the
  types constraint before the names constraint, and the first one that is not met or is
  ill-typed decides: the call returns false if that constraint is not met, raises the
  error of that constraint (\<^verbatim>\<open>Invalid types provided\<close> or \<^verbatim>\<open>Invalid name provided\<close>) if
  it is ill-typed, and returns true if there is none. A constraint is ill-typed when
  its value is neither absent nor a string nor an array; otherwise a types constraint is
  met when it is absent, a string equal (\<^verbatim>\<open>==\<close>) to the type, or an array that is empty
  or contains the type, and a names constraint is met when it is absent, the empty
  string, a string equal to the event name, or an array that is empty or contains the
  event name. So the call returns true iff every filter matches, and when no constraint
  is ill-typed it returns whether every filter matches.
\<close>

theorem C6_matchFilter:
  "matchFilter js e t fs = outcome (verdicts js e t fs)
   \<and> (matchFilter js e t fs = Inr True \<longleftrightarrow> list_all (filter_matches js e t) fs)
   \<and> (list_all well_typed fs
        \<longrightarrow> matchFilter js e t fs = Inr (list_all (filter_matches js e t) fs))"
  using matchFilter_outcome matchFilter_True_iff matchFilter_well_typed
  by (intro conjI impI)

theorem C6_matchFilter_witness:
  "matchFilter \<lparr>loose_eq = (\<lambda>s x. False), strict_eq = (\<lambda>x y. x = y)\<rparr> ''save'' (Present (EStr ''user''))
       [\<lparr>types = Many [EObj (3::nat), EStr ''user''], names = Single ''''\<rparr>,
        \<lparr>types = Single ''user'', names = Many [EStr ''load'']\<rparr>,
        \<lparr>types = Invalid, names = Unset\<rparr>]
     = outcome [Met, Met, Met, Unmet, Ill ''Invalid types provided'', Met]
   \<and> matchFilter \<lparr>loose_eq = (\<lambda>s x. False), strict_eq = (\<lambda>x y. x = y)\<rparr> ''save'' (Present (EStr ''user''))
       [\<lparr>types = Many [EObj (3::nat), EStr ''user''], names = Single ''''\<rparr>,
        \<lparr>types = Single ''user'', names = Many [EStr ''load'']\<rparr>,
        \<lparr>types = Invalid, names = Unset\<rparr>]
     = Inr False
   \<and> list_all well_typed
       [\<lparr>types = Many [EObj (3::nat), EStr ''user''], names = Single ''''\<rparr>,
        \<lparr>types = Single ''user'', names = Many [EStr ''save'']\<rparr>]
   \<and> matchFilter \<lparr>loose_eq = (\<lambda>s x. False), strict_eq = (\<lambda>x y. x = y)\<rparr> ''save'' (Present (EStr ''user''))
       [\<lparr>types = Many [EObj (3::nat), EStr ''user''], names = Single ''''\<rparr>,
        \<lparr>types = Single ''user'', names = Many [EStr ''save'']\<rparr>]
     = Inr True
   \<and> matchFilter \<lparr>loose_eq = (\<lambda>s x. False), strict_eq = (\<lambda>x y. x = y)\<rparr> ''save'' (Present (EStr ''user''))
       [\<lparr>types = Unset, names = Invalid\<rparr> :: nat filter]
     = Inl (Error ''Invalid name provided'')"
proof -
  let ?js = "\<lparr>loose_eq = (\<lambda>s (x::nat). False), strict_eq = (\<lambda>x y. x = y)\<rparr>"
  let ?fs = "[\<lparr>types = Many [EObj (3::nat), EStr ''user''], names = Single ''''\<rparr>,
        \<lparr>types = Single ''user'', names = Many [EStr ''load'']\<rparr>,
        \<lparr>types = Invalid, names = Unset\<rparr>]"
  let ?gs = "[\<lparr>types = Many [EObj (3::nat), EStr ''user''], names = Single ''''\<rparr>,
        \<lparr>types = Single ''user'', names = Many [EStr ''save'']\<rparr>]"
  have v: "verdicts ?js ''save'' (Present (EStr ''user'')) ?fs
      = [Met, Met, Met, Unmet, Ill ''Invalid types provided'', Met]"
    by (simp add: verdicts_def types_verdict_def names_verdict_def meets_def differs_def
        contains_def same_def)
  have o: "outcome [Met, Met, Met, Unmet, Ill ''Invalid types provided'', Met] = Inr False"
    by (simp add: outcome_def)
  have w: "list_all well_typed ?gs"
    by (simp add: well_typed_def)
  have m: "list_all (filter_matches ?js ''save'' (Present (EStr ''user''))) ?gs"
    by (simp add: filter_matches_def meets_def differs_def contains_def same_def)
  have n: "verdicts ?js ''save'' (Present (EStr ''user'')) [\<lparr>types = Unset, names = Invalid\<rparr>]
      = [Met, Ill ''Invalid name provided'']"
    by (simp add: verdicts_def types_verdict_def names_verdict_def meets_def)
  have on: "outcome [Met, Ill ''Invalid name provided''] = Inl (Error ''Invalid name provided'')"
    by (simp add: outcome_def)
  note T = C6_matchFilter [of ?js "''save''" "Present (EStr ''user'')"]
  from T [of ?fs, THEN conjunct1] v have r1: "matchFilter ?js ''save'' (Present (EStr ''user'')) ?fs
      = outcome [Met, Met, Met, Unmet, Ill ''Invalid types provided'', Met]"
    by simp
  from T [of ?gs, THEN conjunct2, THEN conjunct2, rule_format, OF w] m
  have r2: "matchFilter ?js ''save'' (Present (EStr ''user'')) ?gs = Inr True"
    by simp
  from T [of "[\<lparr>types = Unset, names = Invalid\<rparr>]", THEN conjunct1] n on
  have r3: "matchFilter ?js ''save'' (Present (EStr ''user'')) [\<lparr>types = Unset, names = Invalid\<rparr>]
      = Inl (Error ''Invalid name provided'')"
    by simp
  from r1 o have r1b: "matchFilter ?js ''save'' (Present (EStr ''user'')) ?fs = Inr False"
    by simp
  from r1 r1b w r2 r3 show ?thesis by (intro conjI)
qed

section \<open>Properties of the bubbling\<close>

subsection \<open>Runs\<close>

text \<open>Sequencing, and what a run has dispatched, called and shown.\<close>

lemma and_then_None [simp]: "and_then (acts, None) r = (acts @ fst r, snd r)"
  by (simp add: and_then_def)

lemma and_then_Some [simp]: "and_then (acts, Some e) r = (acts, Some e)"
  by (simp add: and_then_def)

lemma and_then_Nil [simp]: "and_then r ([], None) = r"
  by (cases r) (auto simp: and_then_def split: option.splits)

lemma fst_and_then: "fst (and_then r1 r2) = (if snd r1 = None then fst r1 @ fst r2 else fst r1)"
  by (cases r1) (auto simp: and_then_def split: option.splits)

lemma snd_and_then: "snd (and_then r1 r2) = (if snd r1 = None then snd r2 else snd r1)"
  by (cases r1) (auto simp: and_then_def split: option.splits)

lemma channels_append [simp]: "channels (xs @ ys) = channels xs @ channels ys"
  by (induction xs rule: channels.induct) auto

lemma sources_append [simp]: "sources (xs @ ys) = sources xs @ sources ys"
  by (induction xs rule: sources.induct) auto

lemma invoked_append [simp]: "invoked (xs @ ys) = invoked xs @ invoked ys"
  by (induction xs rule: invoked.induct) auto


lemma prefix_append_right: "prefix xs ys \<Longrightarrow> prefix xs (ys @ zs)"
  by (auto simp: prefix_def)

text \<open>The calls of the closures of a channel do not read the first element of the array.\<close>

lemma calls_a_path [simp]: "calls js ws (a\<lparr>a_path := q\<rparr>) = calls js ws a"
  by (simp add: calls_def accepts_def)

lemma calls_Cons:
  "calls js (w # ws) a =
     (if accepts js w a then [Invoke (w_callback w) (a_event a) (a_source a) (a_extra a)] else [])
       @ calls js ws a"
  by (simp add: calls_def)

lemma channels_calls [simp]: "channels (calls js ws a) = []"
  by (induction ws) (simp_all add: calls_def)

lemma invoked_calls:
  "invoked (calls js ws a) = map w_callback (filter (\<lambda>w. accepts js w a) ws)"
  by (induction ws) (simp_all add: calls_def)

lemma sources_calls: "s \<in> set (sources (calls js ws a)) \<Longrightarrow> s = a_source a"
  by (induction ws) (auto simp: calls_def split: if_splits)

text \<open>
  A closure calls its callback when it accepts the event, and raises when the loop of
  \<^verbatim>\<open>matchFilter\<close> reaches an ill-typed constraint.
\<close>

lemma fst_filteredCallback:
  "fst (filteredCallback js w (a_event a) (a_source a) (a_extra a)) = calls js [w] a"
  by (auto simp: filteredCallback_def calls_def accepts_def Let_def split: sum.splits)


lemma call_listeners_prefix: "prefix (fst (call_listeners js ws a)) (calls js ws a)"
proof (induction ws)
  case Nil
  show ?case by (simp add: calls_def)
next
  case (Cons w ws)
  have c: "calls js (w # ws) a = calls js [w] a @ calls js ws a"
    by (simp add: calls_def)
  show ?case
    unfolding call_listeners.simps fst_and_then fst_filteredCallback c
    using Cons.IH by (simp add: prefix_append_right)
qed






lemma channels_call_listeners [simp]: "channels (fst (call_listeners js ws a)) = []"
  using call_listeners_prefix [of js ws a]
  by (auto simp: prefix_def dest!: arg_cong [where f = channels])

lemma channels_bus_emit [simp]: "channels (fst (bus_emit js bid bus a)) = [(bid, a_path a)]"
  by (simp add: bus_emit_def)




lemma channels_dispatch_all:
  "snd (dispatch_all js bid bus as) = None
     \<Longrightarrow> channels (fst (dispatch_all js bid bus as)) = map (\<lambda>a. (bid, a_path a)) as"
  by (induction as) (auto simp: fst_and_then snd_and_then split: if_splits)

lemma channels_dispatch_all_prefix:
  "prefix (channels (fst (dispatch_all js bid bus as))) (map (\<lambda>a. (bid, a_path a)) as)"
  by (induction as) (auto simp: fst_and_then)

lemma channels_and_then:
  "channels (fst (and_then r1 r2)) =
     (if snd r1 = None then channels (fst r1) @ channels (fst r2) else channels (fst r1))"
  by (simp add: fst_and_then)

subsection \<open>The climb\<close>



lemma climb_Nil [simp]: "climb [] = []"
  by (simp add: climb_def slash_positions_def)














subsection \<open>Canonical paths and their strict ancestors\<close>













subsection \<open>Subscribing and then emitting\<close>

lemma s_path_emit_source [simp]: "s_path (emit_source b p ev ex) = p"
  by (auto simp: emit_source_def Let_def split: option.splits sum.splits event.splits)


lemma bstore_subscribe [simp]: "bstore (Bubbler_subscribe cp b q cb opts) = bstore b"
  by (simp add: Bubbler_subscribe_def Let_def)






subsection \<open>What a run holds\<close>








subsection \<open>The claims about the bubbling\<close>







section \<open>Properties of the subscriptions\<close>

text \<open>The loop over the keys of \<^verbatim>\<open>$callbacks\<close> removes the entries of the listeners given.\<close>

lemma map_of_drop_callbacks:
  "map_of (drop_callbacks keys ls cbs) k =
     (case map_of cbs k of
        None \<Rightarrow> None
      | Some w \<Rightarrow> (if k \<in> set keys \<and> w \<in> set ls then None else Some w))"
proof (induction keys arbitrary: cbs)
  case Nil
  show ?case by (simp split: option.splits)
next
  case (Cons k0 keys)
  show ?case
    by (cases "map_of cbs k0") (auto simp: Cons.IH delete_conv' split: option.splits)
qed

text \<open>
  Every closure has an identity of its own and listens at one path: \<^verbatim>\<open>subscribe\<close>
  registers a new closure, and at the cleaned path only.
\<close>

lemma listeners_at_subscribe:
  "w \<in> listeners_at (Bubbler_subscribe cp b path cb opts) q
     \<Longrightarrow> w \<in> listeners_at b q \<or> (q = cp path \<and> w_id w = next_id b)"
  by (auto simp: listeners_at_def Bubbler_subscribe_def Let_def bus_on_def split: if_splits)

lemma next_id_subscribe: "next_id (Bubbler_subscribe cp b path cb opts) = Suc (next_id b)"
  by (simp add: Bubbler_subscribe_def Let_def)

lemma listeners_at_clear:
  "listeners_at (Bubbler_clearSubscriptions b path) q = (if q = path then {} else listeners_at b q)"
  by (simp add: listeners_at_def Bubbler_clearSubscriptions_def Let_def removeAllListeners_def)

lemma next_id_clear: "next_id (Bubbler_clearSubscriptions b path) = next_id b"
  by (simp add: Bubbler_clearSubscriptions_def Let_def)

lemma built_ids:
  assumes "built cp b"
  shows "(w \<in> listeners_at b q \<longrightarrow> w_id w < next_id b)
       \<and> (w \<in> listeners_at b q \<and> w' \<in> listeners_at b q' \<and> w_id w = w_id w' \<longrightarrow> q = q')"
  using assms
proof (induction arbitrary: w w' q q' rule: built.induct)
  case (new store)
  show ?case by (simp add: listeners_at_def Bubbler_def)
next
  case (subscribe b path callback opts)
  have old: "\<And>w q. w \<in> listeners_at b q \<Longrightarrow> w_id w < next_id b"
    and uniq: "\<And>w w' q q'. w \<in> listeners_at b q \<Longrightarrow> w' \<in> listeners_at b q' \<Longrightarrow> w_id w = w_id w' \<Longrightarrow> q = q'"
    using subscribe.IH by blast+
  let ?b = "Bubbler_subscribe cp b path callback opts"
  have mem: "\<And>w q. w \<in> listeners_at ?b q \<Longrightarrow>
      w \<in> listeners_at b q \<or> (q = cp path \<and> w_id w = next_id b)"
    by (rule listeners_at_subscribe)
  show ?case
  proof (intro conjI impI)
    assume "w \<in> listeners_at ?b q"
    from mem [OF this] old show "w_id w < next_id ?b"
      by (auto simp: next_id_subscribe less_Suc_eq)
  next
    assume a: "w \<in> listeners_at ?b q \<and> w' \<in> listeners_at ?b q' \<and> w_id w = w_id w'"
    from a mem [of w q] mem [of w' q'] old [of w q] old [of w' q'] uniq [of w q w' q']
    show "q = q'" by auto
  qed
next
  case (clear b path)
  have old: "\<And>w q. w \<in> listeners_at b q \<Longrightarrow> w_id w < next_id b"
    and uniq: "\<And>w w' q q'. w \<in> listeners_at b q \<Longrightarrow> w' \<in> listeners_at b q' \<Longrightarrow> w_id w = w_id w' \<Longrightarrow> q = q'"
    using clear.IH by blast+
  show ?case
    by (auto simp: listeners_at_clear next_id_clear split: if_splits intro: old dest: uniq)
next
  case (attach b store)
  then show ?case by (simp add: listeners_at_def setStore_def)
qed

lemma built_listener_one_path:
  "built cp b \<Longrightarrow> w \<in> listeners_at b q \<Longrightarrow> q \<noteq> path \<Longrightarrow> w \<notin> listeners_at b path"
  using built_ids [of cp b w q w path] by blast

text \<open>
  C9. After \<^verbatim>\<open>clearSubscriptions(path)\<close> no listener is left at \<open>path\<close> on either bus;
  the listeners at every other path, on both buses, are as before; the entries of
  \<^verbatim>\<open>$callbacks\<close> left are entries of before whose closure was not listening at \<open>path\<close>,
  and every such entry is left. In a state that the bubbler's methods can produce, a
  closure listening at another path is not listening at \<open>path\<close>, so its entry stays.
\<close>

theorem C9_clearSubscriptions_frame:
  "eventBus (Bubbler_clearSubscriptions b path) path = []
    \<and> bubbleBus (Bubbler_clearSubscriptions b path) path = []
    \<and> (\<forall>q. q \<noteq> path \<longrightarrow>
          eventBus (Bubbler_clearSubscriptions b path) q = eventBus b q
          \<and> bubbleBus (Bubbler_clearSubscriptions b path) q = bubbleBus b q)
    \<and> (\<forall>k w. map_of (callbacks (Bubbler_clearSubscriptions b path)) k = Some w \<longrightarrow>
          map_of (callbacks b) k = Some w \<and> w \<notin> listeners_at b path)
    \<and> (\<forall>k w. map_of (callbacks b) k = Some w \<and> w \<notin> listeners_at b path \<longrightarrow>
          map_of (callbacks (Bubbler_clearSubscriptions b path)) k = Some w)
    \<and> (\<forall>k w q. built cleanPath b \<and> q \<noteq> path \<and> w \<in> listeners_at b q
          \<and> map_of (callbacks b) k = Some w \<longrightarrow>
          map_of (callbacks (Bubbler_clearSubscriptions b path)) k = Some w)"
proof -
  let ?b' = "Bubbler_clearSubscriptions b path"
  have cb: "map_of (callbacks ?b') k =
      (case map_of (callbacks b) k of
         None \<Rightarrow> None
       | Some w \<Rightarrow> (if w \<in> listeners_at b path then None else Some w))" for k
    by (auto simp: Bubbler_clearSubscriptions_def Let_def map_of_drop_callbacks
        listeners_at_def split: option.splits dest: map_of_SomeD weak_map_of_SomeI
        intro: rev_image_eqI)
  show ?thesis
  proof (intro conjI allI impI)
    show "eventBus ?b' path = []" "bubbleBus ?b' path = []"
      by (simp_all add: Bubbler_clearSubscriptions_def Let_def removeAllListeners_def)
  next
    fix q assume "q \<noteq> path"
    then show "eventBus ?b' q = eventBus b q" "bubbleBus ?b' q = bubbleBus b q"
      by (simp_all add: Bubbler_clearSubscriptions_def Let_def removeAllListeners_def)
  next
    fix k w assume "map_of (callbacks ?b') k = Some w"
    then show "map_of (callbacks b) k = Some w" "w \<notin> listeners_at b path"
      by (auto simp: cb split: option.splits if_splits)
  next
    fix k w assume "map_of (callbacks b) k = Some w \<and> w \<notin> listeners_at b path"
    then show "map_of (callbacks ?b') k = Some w" by (simp add: cb)
  next
    fix k w q
    assume a: "built cleanPath b \<and> q \<noteq> path \<and> w \<in> listeners_at b q
          \<and> map_of (callbacks b) k = Some w"
    then have "w \<notin> listeners_at b path" using built_listener_one_path by blast
    with a show "map_of (callbacks ?b') k = Some w" by (simp add: cb)
  qed
qed

theorem C9_clearSubscriptions_frame_witness:
  "eventBus (Bubbler_clearSubscriptions
       (Bubbler_subscribe (\<lambda>p. p)
          (Bubbler_subscribe (\<lambda>p. p) (Bubbler None :: (string, nat) bubbler) ''/a'' ''f'' None)
          ''/a/b'' ''g'' None) ''/a'') ''/a'' = []
   \<and> eventBus (Bubbler_clearSubscriptions
       (Bubbler_subscribe (\<lambda>p. p)
          (Bubbler_subscribe (\<lambda>p. p) (Bubbler None :: (string, nat) bubbler) ''/a'' ''f'' None)
          ''/a/b'' ''g'' None) ''/a'') ''/a/b''
       = [\<lparr>w_id = Suc 0, w_callback = ''g'', w_filters = [\<lparr>types = Unset, names = Unset\<rparr>],
            w_triggered = True\<rparr>]
   \<and> map_of (callbacks (Bubbler_clearSubscriptions
       (Bubbler_subscribe (\<lambda>p. p)
          (Bubbler_subscribe (\<lambda>p. p) (Bubbler None :: (string, nat) bubbler) ''/a'' ''f'' None)
          ''/a/b'' ''g'' None) ''/a'')) ''g''
       = Some \<lparr>w_id = Suc 0, w_callback = ''g'', w_filters = [\<lparr>types = Unset, names = Unset\<rparr>],
            w_triggered = True\<rparr>"
proof -
  let ?b = "Bubbler_subscribe (\<lambda>p. p)
          (Bubbler_subscribe (\<lambda>p. p) (Bubbler None :: (string, nat) bubbler) ''/a'' ''f'' None)
          ''/a/b'' ''g'' None"
  let ?w = "\<lparr>w_id = Suc 0, w_callback = ''g'',
             w_filters = [\<lparr>types = Unset, names = Unset\<rparr> :: nat filter],
             w_triggered = True\<rparr>"
  note T = C9_clearSubscriptions_frame [of ?b "''/a''" "\<lambda>p. p"]
  have ne: "''/a/b'' \<noteq> ''/a''" by simp
  have bl: "built (\<lambda>p. p) ?b"
    by (intro built.subscribe built.new)
  have eb: "eventBus ?b ''/a/b'' = [?w]"
    by (simp add: Bubbler_subscribe_def Bubbler_def Let_def bus_on_def no_options_def)
  have li: "?w \<in> listeners_at ?b ''/a/b''"
    using eb by (simp add: listeners_at_def)
  have cb: "map_of (callbacks ?b) ''g'' = Some ?w"
    by (simp add: Bubbler_subscribe_def Bubbler_def Let_def no_options_def)
  have s: "built (\<lambda>p. p) ?b \<and> ''/a/b'' \<noteq> ''/a'' \<and> ?w \<in> listeners_at ?b ''/a/b''
      \<and> map_of (callbacks ?b) ''g'' = Some ?w"
    using bl li cb by simp
  note U = T [THEN conjunct2, THEN conjunct2, THEN conjunct2, THEN conjunct2, THEN conjunct2,
      rule_format]
  have keep: "map_of (callbacks (Bubbler_clearSubscriptions ?b ''/a'')) ''g'' = Some ?w"
    by (rule U [where k = "''g''" and w = ?w and q = "''/a/b''", OF s])
  from T [THEN conjunct1]
    T [THEN conjunct2, THEN conjunct2, THEN conjunct1, rule_format, OF ne, THEN conjunct1]
    keep eb
  show ?thesis by simp
qed

section \<open>Properties of the facade\<close>










lemma g_bubbler_Giza_save [simp]:
  "g_bubbler (snd (Giza_save nil_safe js cp g path key val)) = g_bubbler g"
  by (auto simp: Giza_save_def Let_def split: prod.splits option.splits sum.splits)




end
